theory Spec2Isabelle
  imports Main "HOL-Library.Word" "HOL-Library.Sublist"
begin

section \<open>ScaleFS core (kernel/scalefs.cc): data model and operations\<close>

text \<open>
  Every panic, failed assertion and out-of-range access of the source is a value of
  this type; a function that can hit one returns \<open>panic + 'a\<close>.
\<close>

datatype panic =
    Assert_failed
  | Out_of_range
  | Freeing_free_block nat
  | Mapping_does_not_exist
  | Inode_does_not_exist
  | Parent_does_not_exist
  | Out_of_inodes
  | Journal_write_failed

subsection \<open>Block allocator\<close>

text \<open>
  \<open>free_bit_vector\<close> holds one \<open>free_bit\<close> per block, at the index of its block number
  (\<open>initialize_free_bit_vector\<close> emplaces the bit for block \<open>b + bi\<close> at position
  \<open>b + bi\<close>), so the vector is the list of the \<open>is_free\<close> flags. The freelist links
  the same \<open>free_bit\<close> objects; a linked bit is named by its block number \<open>bno_\<close>.
  \<open>sb_size\<close> is the \<open>size\<close> field that \<open>get_superblock\<close> returns. The locks are
  not modelled: the operations are taken one at a time.
\<close>

record allocator =
  free_bit_vector :: "bool list"
  free_bit_freelist :: "nat list"
  sb_size :: nat

text \<open>
  \<open>initialize_free_bit_vector\<close>: the two nested loops visit the block numbers
  \<open>0 ..< sb.size\<close> in increasing order. \<open>bitmap b\<close> is the bit of block \<open>b\<close> in the
  on-disk bitmap block; the block is free when the bit is clear. Every bit is appended to
  the vector, the free ones also to the tail of the freelist.
\<close>

definition initialize_bit :: "(nat \<Rightarrow> bool) \<Rightarrow> allocator \<Rightarrow> nat \<Rightarrow> allocator" where
  "initialize_bit bitmap a b =
     (let f = \<not> bitmap b;
          a1 = a\<lparr>free_bit_vector := free_bit_vector a @ [f]\<rparr>
      in if \<not> f then a1
         else a1\<lparr>free_bit_freelist := free_bit_freelist a1 @ [b]\<rparr>)"

definition initialize_free_bit_vector :: "nat \<Rightarrow> (nat \<Rightarrow> bool) \<Rightarrow> allocator" where
  "initialize_free_bit_vector sz bitmap =
     foldl (initialize_bit bitmap)
       \<lparr>free_bit_vector = [], free_bit_freelist = [], sb_size = sz\<rparr> [0..<sz]"

text \<open>
  \<open>alloc_block\<close>: with a non-empty freelist, take its first bit, assert that it is free,
  clear \<open>is_free\<close>, unlink the bit and return its block number; with an empty freelist
  return \<open>sb.size\<close>. In the code a linked bit is an object of the vector; the first test
  below says so for the block number that names it here.
\<close>

definition alloc_block :: "allocator \<Rightarrow> panic + (nat \<times> allocator)" where
  "alloc_block a =
     (case free_bit_freelist a of
        [] \<Rightarrow> Inr (sb_size a, a)
      | bno # rest \<Rightarrow>
          if \<not> bno < length (free_bit_vector a) then Inl Out_of_range
          else if \<not> free_bit_vector a ! bno then Inl Assert_failed
          else Inr (bno, a\<lparr>free_bit_vector := (free_bit_vector a)[bno := False],
                            free_bit_freelist := rest\<rparr>))"

text \<open>
  \<open>free_block\<close>: \<open>free_bit_vector.at(bno)\<close> is bounds-checked; freeing a free block
  panics; otherwise the bit is set and pushed at the head of the freelist.
\<close>

definition free_block :: "allocator \<Rightarrow> nat \<Rightarrow> panic + allocator" where
  "free_block a bno =
     (if \<not> bno < length (free_bit_vector a) then Inl Out_of_range
      else if free_bit_vector a ! bno then Inl (Freeing_free_block bno)
      else Inr (a\<lparr>free_bit_vector := (free_bit_vector a)[bno := True],
                   free_bit_freelist := bno # free_bit_freelist a\<rparr>))"

text \<open>
  The allocator states of a run: the state after initialisation from any superblock size
  and bitmap, and every state that a returning \<open>alloc_block\<close> or \<open>free_block\<close> leaves.
\<close>

inductive allocator_state :: "allocator \<Rightarrow> bool" where
  initialized: "allocator_state (initialize_free_bit_vector sz bitmap)"
| allocated: "allocator_state a \<Longrightarrow> alloc_block a = Inr (bno, a') \<Longrightarrow> allocator_state a'"
| freed: "allocator_state a \<Longrightarrow> free_block a bno = Inr a' \<Longrightarrow> allocator_state a'"

text \<open>Invariant I2 of the allocator, with the vector as long as the disk.\<close>

definition freelist_inv :: "allocator \<Rightarrow> bool" where
  "freelist_inv a \<longleftrightarrow>
     length (free_bit_vector a) = sb_size a \<and>
     distinct (free_bit_freelist a) \<and>
     (\<forall>bno. bno \<in> set (free_bit_freelist a) \<longleftrightarrow>
        bno < length (free_bit_vector a) \<and> free_bit_vector a ! bno)"

subsection \<open>Journal recovery\<close>

text \<open>
  \<open>journal_block_header\<close>, the packed header of a journal record. Its constructor is
  called as \<open>journal_block_header(timestamp, blocknum, block_type)\<close>.
\<close>

record journal_block_header =
  timestamp :: "64 word"
  blocknum :: "32 word"
  block_type :: "8 word"

text \<open>
  Modelled from the spec: the enumerators \<open>jrnl_start\<close>, \<open>jrnl_data\<close> and
  \<open>jrnl_commit\<close> are declared in a header that is not among the sources. The spec gives
  the record type as a \<open>u8\<close> in \<open>{Start, Data, Commit}\<close> and lets a header of zero bytes
  end the log, so the three codes are distinct and none is zero.
\<close>

definition jrnl_start :: "8 word" where "jrnl_start = 1"
definition jrnl_data :: "8 word" where "jrnl_data = 2"
definition jrnl_commit :: "8 word" where "jrnl_commit = 3"

text \<open>\<open>transaction_diskblock(blocknum, blockdata)\<close>: a home block number and its bytes.\<close>

type_synonym transaction_diskblock = "32 word \<times> 8 word list"












subsection \<open>Logical log operations and the fsync dependency walk\<close>

text \<open>
  The operations of the logical log, with the fields that \<open>mfs_create\<close>, \<open>mfs_link\<close>,
  \<open>mfs_unlink\<close>, \<open>mfs_delete\<close> and \<open>mfs_rename\<close> read from them. Every operation
  carries its \<open>timestamp\<close> first. The other arguments are, in order:
  create and link: \<open>mnode\<close>, \<open>parent\<close>, \<open>mnode_type\<close>, \<open>name\<close>;
  unlink: \<open>parent\<close>, \<open>name\<close>; delete: \<open>mnode\<close>;
  rename: \<open>name\<close>, \<open>parent\<close>, \<open>newname\<close>, \<open>new_parent\<close>, \<open>mnode\<close>, \<open>mnode_type\<close>.
\<close>

datatype mfs_operation =
    mfs_operation_create "64 word" "64 word" "64 word" "8 word" string
  | mfs_operation_link "64 word" "64 word" "64 word" "8 word" string
  | mfs_operation_unlink "64 word" "64 word" string
  | mfs_operation_delete "64 word" "64 word"
  | mfs_operation_rename "64 word" string "64 word" string "64 word" "64 word" "8 word"

fun op_timestamp :: "mfs_operation \<Rightarrow> 64 word" where
  "op_timestamp (mfs_operation_create ts m p ty n) = ts"
| "op_timestamp (mfs_operation_link ts m p ty n) = ts"
| "op_timestamp (mfs_operation_unlink ts p n) = ts"
| "op_timestamp (mfs_operation_delete ts m) = ts"
| "op_timestamp (mfs_operation_rename ts n p nn np m ty) = ts"

text \<open>
  The state that \<open>find_dependent_ops\<close> works on: the \<open>operation_vec\<close> of the logical
  log (oldest operation first), its local \<open>mnode_vec\<close> and the caller's
  \<open>dependent_ops\<close>.
\<close>

record dependency_walk =
  operation_vec :: "mfs_operation list"
  mnode_vec :: "64 word list"
  dependent_ops :: "mfs_operation list"

text \<open>
  The two dependency tests are virtual methods of the operations, defined outside the
  sources; they receive \<open>mnode_vec\<close> by reference and may append to it. Here they are
  the parameters \<open>cpd\<close> (\<open>check_parent_dependency\<close>) and \<open>cd\<close>
  (\<open>check_dependency\<close>), each returning its verdict and the vector it leaves.

  One pass of the loop body of \<open>find_dependent_ops\<close>, at position \<open>index\<close> after the
  decrement. \<open>check_dependency\<close> is called only when \<open>isdir &&
  check_parent_dependency\<close> is false, and \<open>check_parent_dependency\<close> only when
  \<open>isdir\<close> holds. A dependent operation is appended to \<open>dependent_ops\<close> and erased from
  \<open>operation_vec\<close>.
\<close>

definition take_dependent :: "nat \<Rightarrow> dependency_walk \<Rightarrow> dependency_walk" where
  "take_dependent index w =
     w\<lparr>dependent_ops := dependent_ops w @ [operation_vec w ! index],
       operation_vec := take index (operation_vec w) @ drop (Suc index) (operation_vec w)\<rparr>"

definition find_dependent_step ::
  "(mfs_operation \<Rightarrow> 64 word list \<Rightarrow> 64 word \<Rightarrow> bool \<times> 64 word list) \<Rightarrow>
   (mfs_operation \<Rightarrow> 64 word list \<Rightarrow> bool \<times> 64 word list) \<Rightarrow>
   64 word \<Rightarrow> bool \<Rightarrow> nat \<Rightarrow> dependency_walk \<Rightarrow> dependency_walk" where
  "find_dependent_step cpd cd inum isdir index w =
     (let it = operation_vec w ! index;
          (parent_dep, mv1) = (if isdir then cpd it (mnode_vec w) inum
                               else (False, mnode_vec w))
      in if parent_dep then take_dependent index (w\<lparr>mnode_vec := mv1\<rparr>)
         else
           (let (dep, mv2) = cd it mv1
            in if dep then take_dependent index (w\<lparr>mnode_vec := mv2\<rparr>)
               else w\<lparr>mnode_vec := mv2\<rparr>))"

text \<open>
  The \<open>do ... while (it != operation_vec.begin())\<close> loop: \<open>Suc index\<close> is the value of
  \<open>index\<close> before the decrement, and the iterator stands at \<open>begin() + index\<close> after
  it, also after an \<open>erase\<close> at that position, which moves only the operations behind
  it. The loop is entered with \<open>index = size()\<close>, which is not zero.
\<close>

fun find_dependent_loop ::
  "(mfs_operation \<Rightarrow> 64 word list \<Rightarrow> 64 word \<Rightarrow> bool \<times> 64 word list) \<Rightarrow>
   (mfs_operation \<Rightarrow> 64 word list \<Rightarrow> bool \<times> 64 word list) \<Rightarrow>
   64 word \<Rightarrow> bool \<Rightarrow> nat \<Rightarrow> dependency_walk \<Rightarrow> dependency_walk" where
  "find_dependent_loop cpd cd inum isdir 0 w = w"
| "find_dependent_loop cpd cd inum isdir (Suc index) w =
     (let w' = find_dependent_step cpd cd inum isdir index w
      in if index = 0 then w' else find_dependent_loop cpd cd inum isdir index w')"

text \<open>
  \<open>find_dependent_ops\<close>: the result is the log's \<open>operation_vec\<close> and the caller's
  \<open>dependent_ops\<close> as the call leaves them.
\<close>

definition find_dependent_ops ::
  "(mfs_operation \<Rightarrow> 64 word list \<Rightarrow> 64 word \<Rightarrow> bool \<times> 64 word list) \<Rightarrow>
   (mfs_operation \<Rightarrow> 64 word list \<Rightarrow> bool \<times> 64 word list) \<Rightarrow>
   mfs_operation list \<Rightarrow> 64 word \<Rightarrow> mfs_operation list \<Rightarrow> bool \<Rightarrow>
   mfs_operation list \<times> mfs_operation list" where
  "find_dependent_ops cpd cd log_vec inum dep_ops isdir =
     (if length log_vec = 0 then (log_vec, dep_ops)
      else
        (let w = find_dependent_loop cpd cd inum isdir (length log_vec)
                   \<lparr>operation_vec = log_vec, mnode_vec = [inum], dependent_ops = dep_ops\<rparr>
         in (operation_vec w, dependent_ops w)))"

text \<open>
  \<open>process_metadata_log(max_tsc, inum, isdir)\<close>. The second loop walks
  \<open>dependent_ops\<close> from its end to its beginning; for each operation it makes a
  transaction with the operation's timestamp, applies the operation to it and appends the
  transaction to the journal. \<open>applied\<close> lists the operations in the order of these
  calls. The result is that list and the \<open>operation_vec\<close> left in the log.
\<close>

fun apply_dependent_loop ::
  "nat \<Rightarrow> mfs_operation list \<Rightarrow> mfs_operation list \<Rightarrow> mfs_operation list" where
  "apply_dependent_loop 0 dep_ops applied = applied"
| "apply_dependent_loop (Suc i) dep_ops applied =
     (let applied' = applied @ [dep_ops ! i]
      in if i = 0 then applied' else apply_dependent_loop i dep_ops applied')"

definition process_metadata_log ::
  "(mfs_operation \<Rightarrow> 64 word list \<Rightarrow> 64 word \<Rightarrow> bool \<times> 64 word list) \<Rightarrow>
   (mfs_operation \<Rightarrow> 64 word list \<Rightarrow> bool \<times> 64 word list) \<Rightarrow>
   mfs_operation list \<Rightarrow> 64 word \<Rightarrow> bool \<Rightarrow>
   mfs_operation list \<times> mfs_operation list" where
  "process_metadata_log cpd cd log_vec inum isdir =
     (let (log_vec', dep_ops) = find_dependent_ops cpd cd log_vec inum [] isdir
      in if length dep_ops = 0 then ([], log_vec')
         else (apply_dependent_loop (length dep_ops) dep_ops [], log_vec'))"

text \<open>
  Modelled from the spec: \<open>check_dependency\<close> and \<open>check_parent_dependency\<close>, whose
  code is not among the sources. The spec: \<open>check_dependency(needed)\<close> holds when any
  mnum mentioned by the operation is in \<open>needed\<close>; \<open>check_parent_dependency(needed, M)\<close>
  holds when the operation's parent or child is an mnum already in \<open>needed\<close>; when an
  operation is included, all mnums it mentions are added to \<open>needed\<close>.
\<close>

fun op_mnums :: "mfs_operation \<Rightarrow> 64 word list" where
  "op_mnums (mfs_operation_create ts m p ty n) = [m, p]"
| "op_mnums (mfs_operation_link ts m p ty n) = [m, p]"
| "op_mnums (mfs_operation_unlink ts p n) = [p]"
| "op_mnums (mfs_operation_delete ts m) = [m]"
| "op_mnums (mfs_operation_rename ts n p nn np m ty) = [p, np, m]"

fun op_parent_child :: "mfs_operation \<Rightarrow> 64 word list" where
  "op_parent_child (mfs_operation_create ts m p ty n) = [p, m]"
| "op_parent_child (mfs_operation_link ts m p ty n) = [p, m]"
| "op_parent_child (mfs_operation_unlink ts p n) = [p]"
| "op_parent_child (mfs_operation_delete ts m) = []"
| "op_parent_child (mfs_operation_rename ts n p nn np m ty) = [p, np, m]"

definition check_dependency :: "mfs_operation \<Rightarrow> 64 word list \<Rightarrow> bool \<times> 64 word list" where
  "check_dependency opn needed =
     (if \<exists>m \<in> set (op_mnums opn). m \<in> set needed then (True, needed @ op_mnums opn)
      else (False, needed))"

definition check_parent_dependency ::
  "mfs_operation \<Rightarrow> 64 word list \<Rightarrow> 64 word \<Rightarrow> bool \<times> 64 word list" where
  "check_parent_dependency opn needed M =
     (if \<exists>m \<in> set (op_parent_child opn). m \<in> set needed then (True, needed @ op_mnums opn)
      else (False, needed))"

text \<open>
  The mnum-transitive closure of a target \<open>M\<close> over a log: \<open>M\<close> itself, and every mnum
  mentioned by an operation that mentions an mnum of the closure.
\<close>

inductive_set mnum_closure :: "mfs_operation list \<Rightarrow> 64 word \<Rightarrow> 64 word set"
  for log_vec :: "mfs_operation list" and M :: "64 word" where
  target: "M \<in> mnum_closure log_vec M"
| mentioned: "opn \<in> set log_vec \<Longrightarrow> m \<in> set (op_mnums opn) \<Longrightarrow> m \<in> mnum_closure log_vec M \<Longrightarrow>
              m' \<in> set (op_mnums opn) \<Longrightarrow> m' \<in> mnum_closure log_vec M"

text \<open>
  A set of operations of the log that is closed under the dependencies one backward pass
  follows, from a set \<open>N\<close> of needed mnums: it holds every operation that mentions an mnum
  of \<open>N\<close>, and with an operation every older one (at a smaller position) that mentions an
  mnum the newer one mentions.
\<close>

definition backward_closed :: "64 word set \<Rightarrow> mfs_operation list \<Rightarrow> mfs_operation set \<Rightarrow> bool" where
  "backward_closed N log_vec S \<longleftrightarrow>
     (\<forall>opn \<in> set log_vec. set (op_mnums opn) \<inter> N \<noteq> {} \<longrightarrow> opn \<in> S) \<and>
     (\<forall>i j. i < j \<and> j < length log_vec \<and> log_vec ! j \<in> S \<and>
            set (op_mnums (log_vec ! i)) \<inter> set (op_mnums (log_vec ! j)) \<noteq> {}
            \<longrightarrow> log_vec ! i \<in> S)"


text \<open>
  The verdict of one loop pass on an operation, and the backward pass as a recursion
  over the log read newest first: the dependent operations in the order they are
  collected, the others (newest first), and the \<open>mnode_vec\<close> at the end.
\<close>

definition is_dependent ::
  "(mfs_operation \<Rightarrow> 64 word list \<Rightarrow> 64 word \<Rightarrow> bool \<times> 64 word list) \<Rightarrow>
   (mfs_operation \<Rightarrow> 64 word list \<Rightarrow> bool \<times> 64 word list) \<Rightarrow>
   64 word \<Rightarrow> bool \<Rightarrow> mfs_operation \<Rightarrow> 64 word list \<Rightarrow> bool \<times> 64 word list" where
  "is_dependent cpd cd inum isdir it mv =
     (let (parent_dep, mv1) = (if isdir then cpd it mv inum else (False, mv))
      in if parent_dep then (True, mv1) else cd it mv1)"

fun backward_pass ::
  "(mfs_operation \<Rightarrow> 64 word list \<Rightarrow> 64 word \<Rightarrow> bool \<times> 64 word list) \<Rightarrow>
   (mfs_operation \<Rightarrow> 64 word list \<Rightarrow> bool \<times> 64 word list) \<Rightarrow>
   64 word \<Rightarrow> bool \<Rightarrow> 64 word list \<Rightarrow> mfs_operation list \<Rightarrow>
   mfs_operation list \<times> mfs_operation list \<times> 64 word list" where
  "backward_pass cpd cd inum isdir mv [] = ([], [], mv)"
| "backward_pass cpd cd inum isdir mv (x # xs) =
     (let (dep, mv1) = is_dependent cpd cd inum isdir x mv;
          (sel, kept, mv2) = backward_pass cpd cd inum isdir mv1 xs
      in if dep then (x # sel, kept, mv2) else (sel, x # kept, mv2))"


text \<open>
  The operations of the log that mention an mnum of the transitive closure of \<open>M\<close>:
  the smallest subset of the log that contains every operation whose mnum-transitive
  closure touches \<open>M\<close>.
\<close>

definition closure_ops :: "mfs_operation list \<Rightarrow> 64 word \<Rightarrow> mfs_operation set" where
  "closure_ops log_vec M =
     {opn \<in> set log_vec. \<exists>m \<in> set (op_mnums opn). m \<in> mnum_closure log_vec M}"


subsection \<open>Transactions and the commit of a transaction to the journal\<close>

text \<open>
  A \<open>transaction\<close>: its timestamp (the field \<open>timestamp_\<close>), its dirty disk blocks
  and the two lists of block numbers allocated and freed while it was built.
\<close>

record transaction =
  tr_timestamp :: "64 word"
  blocks :: "transaction_diskblock list"
  allocated_block_list :: "32 word list"
  free_block_list :: "32 word list"

text \<open>
  What the commit does to its collaborators, in the order of the calls:
  \<open>Writei_journal offset header\<close> is a record (header and data block) written by
  \<open>write_journal_hdrblock\<close> at \<open>offset\<close> of the journal file under the journal's own
  transaction \<open>trans\<close>; \<open>Write_to_disk records\<close> is \<open>trans->write_to_disk()\<close> with the
  records written under \<open>trans\<close>; \<open>Free_block\<close> is a returning \<open>free_block\<close>;
  \<open>Writeback_async\<close> and \<open>Async_iowait\<close> are the calls on a block of the committed
  transaction, named by its block number; \<open>Ideflush\<close> is \<open>ideflush()\<close>;
  \<open>Zero_fill n\<close> is \<open>zero_fill(sv6_journal, n)\<close>.
\<close>

datatype event =
    Writei_journal nat journal_block_header
  | Write_to_disk "journal_block_header list"
  | Free_block "32 word"
  | Writeback_async "32 word"
  | Async_iowait "32 word"
  | Ideflush
  | Zero_fill nat

text \<open>
  The functions and constants of other files that the commit calls, as parameters:
  \<open>balloc_on_disk\<close> and \<open>bfree_on_disk\<close> (which add bitmap blocks to the transaction),
  \<open>transaction::prepare_for_commit\<close>, the number of bytes \<open>writei\<close> reports for a
  write of \<open>n\<close> bytes at \<open>offset\<close> of the journal file, and
  \<open>sizeof(journal_block_header)\<close>.
\<close>

record collaborators =
  balloc_on_disk :: "32 word list \<Rightarrow> transaction \<Rightarrow> transaction"
  bfree_on_disk :: "32 word list \<Rightarrow> transaction \<Rightarrow> transaction"
  prepare_for_commit :: "transaction \<Rightarrow> transaction"
  writei_journal :: "nat \<Rightarrow> nat \<Rightarrow> nat"
  hdr_size :: nat

definition BSIZE :: nat where "BSIZE = 4096"

text \<open>
  The state the commit works on: the block allocator, the journal's write offset
  (\<open>fs_journal->current_offset()\<close>) and the events so far.
\<close>

record commit_state =
  block_allocator :: allocator
  journal_offset :: nat
  events :: "event list"

text \<open>
  \<open>write_journal_hdrblock\<close>. \<open>recs\<close> are the headers of the records written so far
  under the transaction \<open>trans\<close> that the caller passes.
\<close>

definition write_journal_hdrblock ::
  "collaborators \<Rightarrow> journal_block_header \<Rightarrow> 8 word list \<Rightarrow>
   commit_state \<times> journal_block_header list \<Rightarrow>
   panic + (commit_state \<times> journal_block_header list)" where
  "write_journal_hdrblock c header datablock sr =
     (let (s, recs) = sr;
          offset = journal_offset s
      in if writei_journal c offset (hdr_size c) \<noteq> hdr_size c then Inl Journal_write_failed
         else if writei_journal c (offset + hdr_size c) BSIZE \<noteq> BSIZE
              then Inl Journal_write_failed
         else Inr (s\<lparr>journal_offset := offset + hdr_size c + BSIZE,
                      events := events s @ [Writei_journal offset header]\<rparr>,
                   recs @ [header]))"

text \<open>
  \<open>write_journal_header\<close>: a Start or a Commit header with a zero-filled data block;
  any other type is reported and nothing is written.
\<close>

definition write_journal_header ::
  "collaborators \<Rightarrow> 8 word \<Rightarrow> 64 word \<Rightarrow> commit_state \<times> journal_block_header list \<Rightarrow>
   panic + (commit_state \<times> journal_block_header list)" where
  "write_journal_header c hdr_type ts sr =
     (if hdr_type = jrnl_start then
        write_journal_hdrblock c \<lparr>timestamp = ts, blocknum = 0, block_type = jrnl_start\<rparr>
          (replicate BSIZE 0) sr
      else if hdr_type = jrnl_commit then
        write_journal_hdrblock c \<lparr>timestamp = ts, blocknum = 0, block_type = jrnl_commit\<rparr>
          (replicate BSIZE 0) sr
      else Inr sr)"

text \<open>\<open>write_journal_transaction_blocks\<close>: one Data record per block, in order.\<close>

fun write_journal_transaction_blocks ::
  "collaborators \<Rightarrow> transaction_diskblock list \<Rightarrow> 64 word \<Rightarrow>
   commit_state \<times> journal_block_header list \<Rightarrow>
   panic + (commit_state \<times> journal_block_header list)" where
  "write_journal_transaction_blocks c [] ts sr = Inr sr"
| "write_journal_transaction_blocks c (b # bs) ts sr =
     (case write_journal_hdrblock c
             \<lparr>timestamp = ts, blocknum = fst b, block_type = jrnl_data\<rparr> (snd b) sr of
        Inl e \<Rightarrow> Inl e
      | Inr sr' \<Rightarrow> write_journal_transaction_blocks c bs ts sr')"

text \<open>\<open>pre_process_transaction\<close>.\<close>

definition pre_process_transaction :: "collaborators \<Rightarrow> transaction \<Rightarrow> transaction" where
  "pre_process_transaction c tr =
     (let tr1 = balloc_on_disk c (allocated_block_list tr) tr
      in bfree_on_disk c (free_block_list tr1) tr1)"

text \<open>
  \<open>post_process_transaction\<close>: first the loop over \<open>free_block_list\<close> that calls
  \<open>free_block\<close>, then \<open>writeback_async\<close> on every block, then \<open>async_iowait\<close> on
  every block, then \<open>ideflush\<close>.
\<close>

fun free_blocks :: "32 word list \<Rightarrow> commit_state \<Rightarrow> panic + commit_state" where
  "free_blocks [] s = Inr s"
| "free_blocks (f # fs) s =
     (case free_block (block_allocator s) (unat f) of
        Inl e \<Rightarrow> Inl e
      | Inr a \<Rightarrow> free_blocks fs (s\<lparr>block_allocator := a, events := events s @ [Free_block f]\<rparr>))"

definition post_process_transaction :: "transaction \<Rightarrow> commit_state \<Rightarrow> panic + commit_state" where
  "post_process_transaction tr s =
     (case free_blocks (free_block_list tr) s of
        Inl e \<Rightarrow> Inl e
      | Inr s1 \<Rightarrow>
          Inr (s1\<lparr>events := events s1 @ map (Writeback_async \<circ> fst) (blocks tr)
                                      @ map (Async_iowait \<circ> fst) (blocks tr) @ [Ideflush]\<rparr>))"

text \<open>\<open>clear_journal\<close>.\<close>

definition clear_journal :: "commit_state \<Rightarrow> commit_state" where
  "clear_journal s =
     s\<lparr>events := events s @ [Zero_fill (journal_offset s)], journal_offset := 0\<rparr>"

text \<open>
  \<open>add_fsync_to_journal\<close>. The timestamp is read before \<open>pre_process_transaction\<close>;
  the Start and Data records are written under one \<open>trans\<close>, which is then written to
  disk; the Commit record under a second one.
\<close>

definition add_fsync_to_journal ::
  "collaborators \<Rightarrow> transaction \<Rightarrow> commit_state \<Rightarrow> panic + commit_state" where
  "add_fsync_to_journal c tr s =
     (let ts = tr_timestamp tr;
          tr1 = pre_process_transaction c tr;
          tr2 = prepare_for_commit c tr1
      in case write_journal_header c jrnl_start ts (s, []) of
           Inl e \<Rightarrow> Inl e
         | Inr sr1 \<Rightarrow>
             (case write_journal_transaction_blocks c (blocks tr2) ts sr1 of
                Inl e \<Rightarrow> Inl e
              | Inr (s2, recs2) \<Rightarrow>
                  (let s3 = s2\<lparr>events := events s2 @ [Write_to_disk recs2]\<rparr>
                   in case write_journal_header c jrnl_commit ts (s3, []) of
                        Inl e \<Rightarrow> Inl e
                      | Inr (s4, recs4) \<Rightarrow>
                          (let s5 = s4\<lparr>events := events s4 @ [Write_to_disk recs4]\<rparr>
                           in case post_process_transaction tr2 s5 of
                                Inl e \<Rightarrow> Inl e
                              | Inr s6 \<Rightarrow> Inr (clear_journal s6)))))"

text \<open>
  \<open>flush_journal_locked\<close>: the loop over \<open>transaction_log\<close>; its body is, statement
  for statement, the body of \<open>add_fsync_to_journal\<close> after the lock is taken. The log is
  cleared at the end.
\<close>

fun flush_journal_locked ::
  "collaborators \<Rightarrow> transaction list \<Rightarrow> commit_state \<Rightarrow> panic + commit_state" where
  "flush_journal_locked c [] s = Inr s"
| "flush_journal_locked c (tr # transaction_log) s =
     (case add_fsync_to_journal c tr s of
        Inl e \<Rightarrow> Inl e
      | Inr s' \<Rightarrow> flush_journal_locked c transaction_log s')"

text \<open>
  Orderings of events: \<open>never_after P Q es\<close> says that no event satisfying \<open>P\<close> comes
  after an event satisfying \<open>Q\<close>, so that everything \<open>P\<close> is done before anything \<open>Q\<close>.
\<close>

fun never_after :: "(event \<Rightarrow> bool) \<Rightarrow> (event \<Rightarrow> bool) \<Rightarrow> event list \<Rightarrow> bool" where
  "never_after P Q [] = True"
| "never_after P Q (e # es) = ((Q e \<longrightarrow> (\<forall>e' \<in> set es. \<not> P e')) \<and> never_after P Q es)"

fun is_free_block :: "event \<Rightarrow> bool" where
  "is_free_block (Free_block b) = True"
| "is_free_block e = False"

fun is_writeback :: "event \<Rightarrow> bool" where
  "is_writeback (Writeback_async b) = True"
| "is_writeback (Async_iowait b) = True"
| "is_writeback e = False"

fun is_ideflush :: "event \<Rightarrow> bool" where
  "is_ideflush Ideflush = True"
| "is_ideflush e = False"

text \<open>An event that writes or waits for a record of the given type.\<close>

fun writes_record :: "8 word \<Rightarrow> event \<Rightarrow> bool" where
  "writes_record ty (Writei_journal off h) = (block_type h = ty)"
| "writes_record ty e = False"

fun waits_for_record :: "8 word \<Rightarrow> event \<Rightarrow> bool" where
  "waits_for_record ty (Write_to_disk recs) = (\<exists>h \<in> set recs. block_type h = ty)"
| "waits_for_record ty e = False"


text \<open>
  The journal writes of a list of headers, one record after the other from \<open>off\<close>, each
  record \<open>sz\<close> bytes long.
\<close>

fun journal_events :: "nat \<Rightarrow> nat \<Rightarrow> journal_block_header list \<Rightarrow> event list" where
  "journal_events off sz [] = []"
| "journal_events off sz (h # hs) = Writei_journal off h # journal_events (off + sz) sz hs"

fun is_write_to_disk :: "event \<Rightarrow> bool" where
  "is_write_to_disk (Write_to_disk recs) = True"
| "is_write_to_disk e = False"


text \<open>
  The order of the events of one commit, as the code has it, for the freeing of blocks:
  the blocks of the transaction's \<open>free_block_list\<close> are the blocks freed; the Commit
  record is waited for before any of them is freed; all of them are freed before any
  block is written back to its home location; the write-backs come before \<open>ideflush\<close>.
  The transaction is the one that \<open>pre_process_transaction\<close> and
  \<open>prepare_for_commit\<close> leave.
\<close>

definition frees_after_commit :: "collaborators \<Rightarrow> transaction \<Rightarrow> event list \<Rightarrow> bool" where
  "frees_after_commit c tr new \<longleftrightarrow>
     (let tr2 = prepare_for_commit c (pre_process_transaction c tr)
      in filter is_free_block new = map Free_block (free_block_list tr2) \<and>
         filter is_writeback new =
           map (Writeback_async \<circ> fst) (blocks tr2) @ map (Async_iowait \<circ> fst) (blocks tr2) \<and>
         filter is_ideflush new = [Ideflush] \<and>
         (\<exists>e \<in> set new. waits_for_record jrnl_commit e) \<and>
         never_after (waits_for_record jrnl_commit) is_free_block new \<and>
         never_after is_free_block is_writeback new \<and>
         never_after is_free_block is_ideflush new \<and>
         never_after is_writeback is_ideflush new)"

text \<open>
  The order of the journal writes of one commit, as the code has it: there are two
  \<open>write_to_disk\<close> calls, the first for the Start record together with all Data
  records, the second for the Commit record alone; the Start record is written before
  the Data records, and every Data record before the first \<open>write_to_disk\<close>; the Commit
  record is written after the Start and Data records have been waited for, and is waited
  for before any block is written back to its home location.
\<close>

definition journal_write_order :: "collaborators \<Rightarrow> transaction \<Rightarrow> event list \<Rightarrow> bool" where
  "journal_write_order c tr new \<longleftrightarrow>
     (let tr2 = prepare_for_commit c (pre_process_transaction c tr);
          start = \<lparr>timestamp = tr_timestamp tr, blocknum = 0, block_type = jrnl_start\<rparr>;
          datas = map (\<lambda>b. \<lparr>timestamp = tr_timestamp tr, blocknum = fst b,
                              block_type = jrnl_data\<rparr>) (blocks tr2);
          commit = \<lparr>timestamp = tr_timestamp tr, blocknum = 0, block_type = jrnl_commit\<rparr>
      in filter is_write_to_disk new = [Write_to_disk (start # datas), Write_to_disk [commit]] \<and>
         (\<exists>off. filter (writes_record jrnl_commit) new = [Writei_journal off commit]) \<and>
         never_after (writes_record jrnl_start) (writes_record jrnl_data) new \<and>
         never_after (writes_record jrnl_data) is_write_to_disk new \<and>
         never_after (waits_for_record jrnl_start) (writes_record jrnl_commit) new \<and>
         never_after (waits_for_record jrnl_data) (writes_record jrnl_commit) new \<and>
         never_after (writes_record jrnl_commit) (waits_for_record jrnl_commit) new \<and>
         never_after (waits_for_record jrnl_commit) is_writeback new)"

text \<open>
  Collaborators for the examples: the bitmap updates and \<open>prepare_for_commit\<close> leave
  the transaction as it is, every \<open>writei\<close> writes all its bytes, and a header takes 16
  bytes.
\<close>

definition plain_collaborators :: collaborators where
  "plain_collaborators =
     \<lparr>balloc_on_disk = (\<lambda>l tr. tr), bfree_on_disk = (\<lambda>l tr. tr),
      prepare_for_commit = (\<lambda>tr. tr), writei_journal = (\<lambda>off n. n), hdr_size = 16\<rparr>"


text \<open>
  A transaction and a state for the examples: one dirty block 5, block 3 to be freed,
  on a disk of four blocks none of which is free.
\<close>

definition example_transaction :: transaction where
  "example_transaction =
     \<lparr>tr_timestamp = 7, blocks = [(5, [1])], allocated_block_list = [],
      free_block_list = [3]\<rparr>"

definition example_commit_state :: commit_state where
  "example_commit_state =
     \<lparr>block_allocator = \<lparr>free_bit_vector = [False, False, False, False],
                          free_bit_freelist = [], sb_size = 4\<rparr>,
      journal_offset = 0, events = []\<rparr>"

definition example_events :: "event list" where
  "example_events =
     [Writei_journal 0 \<lparr>timestamp = 7, blocknum = 0, block_type = jrnl_start\<rparr>,
      Writei_journal 4112 \<lparr>timestamp = 7, blocknum = 5, block_type = jrnl_data\<rparr>,
      Write_to_disk [\<lparr>timestamp = 7, blocknum = 0, block_type = jrnl_start\<rparr>,
                     \<lparr>timestamp = 7, blocknum = 5, block_type = jrnl_data\<rparr>],
      Writei_journal 8224 \<lparr>timestamp = 7, blocknum = 0, block_type = jrnl_commit\<rparr>,
      Write_to_disk [\<lparr>timestamp = 7, blocknum = 0, block_type = jrnl_commit\<rparr>],
      Free_block 3, Writeback_async 5, Async_iowait 5, Ideflush, Zero_fill 12336]"


subsection \<open>The interface between mnodes and on-disk inodes\<close>

text \<open>
  The inode layer, the mnode layer and their constants are outside the sources. They are
  parameters here: functions on a state \<open>'w\<close> of those layers (the inodes, directories
  and mnodes) and on a transaction \<open>'t\<close> that collects dirty blocks. An
  \<open>sref<inode>\<close> is named by its inode number, an \<open>sref<mnode>\<close> by its mnode number,
  and a null reference is \<open>None\<close>. Inode numbers are 32-bit values that the two tables
  hold as 64-bit keys and values.

  \<open>iget\<close> says whether \<open>iget(1, inum)\<close> returns an inode; \<open>ialloc\<close> returns the number
  of the allocated inode; \<open>inode_type\<close> and \<open>inode_nlink\<close> read \<open>i->type\<close> and
  \<open>i->nlink()\<close>; \<open>set_inode_type\<close> is the assignment to \<open>ip->type\<close>; \<open>inode_dec\<close>
  is \<open>ip->dec()\<close>; \<open>root_fs_get\<close> says whether \<open>root_fs->get(mnum)\<close> returns the
  mnode of that number rather than a null reference; \<open>root_fs_alloc\<close> returns the
  number of the new mnode. \<open>ilock\<close> and \<open>iunlock\<close> are not modelled.
\<close>

record ('w, 't) inode_layer =
  iget :: "'w \<Rightarrow> 64 word \<Rightarrow> bool"
  ialloc :: "'w \<Rightarrow> 8 word \<Rightarrow> 64 word \<times> 'w"
  iupdate :: "'w \<Rightarrow> 64 word \<Rightarrow> 't \<Rightarrow> 'w \<times> 't"
  itrunc :: "'w \<Rightarrow> 64 word \<Rightarrow> 32 word \<Rightarrow> 't \<Rightarrow> 'w \<times> 't"
  dirlookup :: "'w \<Rightarrow> 64 word \<Rightarrow> string \<Rightarrow> 64 word option"
  dirlink :: "'w \<Rightarrow> 64 word \<Rightarrow> string \<Rightarrow> 64 word \<Rightarrow> bool \<Rightarrow> 'w"
  dirunlink :: "'w \<Rightarrow> 64 word \<Rightarrow> string \<Rightarrow> 64 word \<Rightarrow> bool \<Rightarrow> 'w"
  dir_flush :: "'w \<Rightarrow> 64 word \<Rightarrow> 't \<Rightarrow> 'w \<times> 't"
  inode_type :: "'w \<Rightarrow> 64 word \<Rightarrow> 8 word"
  inode_nlink :: "'w \<Rightarrow> 64 word \<Rightarrow> nat"
  set_inode_type :: "'w \<Rightarrow> 64 word \<Rightarrow> 8 word \<Rightarrow> 'w"
  inode_dec :: "'w \<Rightarrow> 64 word \<Rightarrow> 'w"
  root_fs_get :: "'w \<Rightarrow> 64 word \<Rightarrow> bool"
  root_fs_alloc :: "'w \<Rightarrow> 8 word \<Rightarrow> 64 word \<times> 'w"
  T_DIR :: "8 word"
  types_file :: "8 word"
  types_dir :: "8 word"

text \<open>
  Modelled from the spec: the \<open>linearhash\<close> class of the two tables of
  \<open>mfs_interface\<close> is not among the sources; the tables are the keyed-unique mappings
  of section 3 of the spec: \<open>lookup\<close> finds the value of a key, \<open>insert\<close> binds a key
  to a value, \<open>remove\<close> unbinds it. The third field is the state of the inode and mnode
  layers.
\<close>

record 'w mfs_interface =
  mnode_to_inode :: "64 word \<rightharpoonup> 64 word"
  inum_to_mnode :: "64 word \<rightharpoonup> 64 word option"
  world :: "'w"

text \<open>\<open>inode_lookup\<close>: the inode number when the mnode has a mapping.\<close>

definition inode_lookup :: "'w mfs_interface \<Rightarrow> 64 word \<Rightarrow> 64 word option" where
  "inode_lookup st mnode = mnode_to_inode st mnode"

text \<open>\<open>get_inode\<close>: panics when the mnode has no mapping or \<open>iget\<close> finds no inode.\<close>

definition get_inode ::
  "('w, 't) inode_layer \<Rightarrow> 'w mfs_interface \<Rightarrow> 64 word \<Rightarrow> panic + 64 word" where
  "get_inode L st mnode_inum =
     (case mnode_to_inode st mnode_inum of
        None \<Rightarrow> Inl Mapping_does_not_exist
      | Some inum \<Rightarrow> if \<not> iget L (world st) inum then Inl Inode_does_not_exist else Inr inum)"

text \<open>
  \<open>create_file_if_new\<close>. The result is the returned inode number, the transaction and
  the state.
\<close>

definition create_file_if_new ::
  "('w, 't) inode_layer \<Rightarrow> 64 word \<Rightarrow> 64 word \<Rightarrow> 8 word \<Rightarrow> string \<Rightarrow> 't \<Rightarrow> bool \<Rightarrow>
   'w mfs_interface \<Rightarrow> panic + (64 word \<times> 't \<times> 'w mfs_interface)" where
  "create_file_if_new L mfile_inum parent type name tr link_in_parent st =
     (case inode_lookup st mfile_inum of
        Some inum \<Rightarrow> Inr (0, tr, st)
      | None \<Rightarrow>
          (case inode_lookup st parent of
             None \<Rightarrow> Inl Parent_does_not_exist
           | Some parent_inum \<Rightarrow>
               (let (i, w1) = ialloc L (world st) type;
                    st1 = st\<lparr>mnode_to_inode := (mnode_to_inode st)(mfile_inum \<mapsto> i),
                             inum_to_mnode := (inum_to_mnode st)
                               (i \<mapsto> (if root_fs_get L w1 mfile_inum then Some mfile_inum
                                       else None)),
                             world := w1\<rparr>;
                    (w2, tr2) = iupdate L w1 i tr
                in if link_in_parent then
                     (if \<not> iget L w2 parent_inum then Inl Parent_does_not_exist
                      else
                        (let w3 = dirlink L w2 parent_inum name i False;
                             (w4, tr4) = dir_flush L w3 parent_inum tr2
                         in Inr (i, tr4, st1\<lparr>world := w4\<rparr>)))
                   else Inr (i, tr2, st1\<lparr>world := w2\<rparr>))))"





text \<open>\<open>unlink_old_inode\<close>.\<close>

definition unlink_old_inode ::
  "('w, 't) inode_layer \<Rightarrow> 64 word \<Rightarrow> string \<Rightarrow> 't \<Rightarrow> 'w mfs_interface \<Rightarrow>
   panic + ('t \<times> 'w mfs_interface)" where
  "unlink_old_inode L mdir_inum name tr st =
     (case get_inode L st mdir_inum of
        Inl e \<Rightarrow> Inl e
      | Inr i \<Rightarrow>
          (case dirlookup L (world st) i name of
             None \<Rightarrow> Inr (tr, st)
           | Some target \<Rightarrow>
               (let w1 = dirunlink L (world st) i name target
                           (inode_type L (world st) target = T_DIR L)
                in if inode_nlink L w1 target = 0
                   then Inr (tr, st\<lparr>world := w1,
                                     inum_to_mnode := (inum_to_mnode st)(target := None)\<rparr>)
                   else Inr (tr, st\<lparr>world := w1\<rparr>))))"

text \<open>
  \<open>free_inode\<close>: the type is cleared before the link count is asserted to be zero.
\<close>

definition free_inode ::
  "('w, 't) inode_layer \<Rightarrow> 64 word \<Rightarrow> 't \<Rightarrow> 'w mfs_interface \<Rightarrow>
   panic + ('t \<times> 'w mfs_interface)" where
  "free_inode L mnode_inum tr st =
     (case get_inode L st mnode_inum of
        Inl e \<Rightarrow> Inl e
      | Inr ip \<Rightarrow>
          (let w1 = set_inode_type L (world st) ip 0
           in if inode_nlink L w1 ip \<noteq> 0 then Inl Assert_failed
              else
                (let (w2, tr2) = iupdate L w1 ip tr;
                     w3 = inode_dec L w2 ip
                 in Inr (tr2, st\<lparr>world := w3\<rparr>))))"

text \<open>\<open>delete_old_inode\<close>.\<close>

definition delete_old_inode ::
  "('w, 't) inode_layer \<Rightarrow> 64 word \<Rightarrow> 't \<Rightarrow> 'w mfs_interface \<Rightarrow>
   panic + ('t \<times> 'w mfs_interface)" where
  "delete_old_inode L mfile_inum tr st =
     (case get_inode L st mfile_inum of
        Inl e \<Rightarrow> Inl e
      | Inr ip \<Rightarrow>
          (let (w1, tr1) = itrunc L (world st) ip 0 tr
           in case free_inode L mfile_inum tr1 (st\<lparr>world := w1\<rparr>) of
                Inl e \<Rightarrow> Inl e
              | Inr (tr2, st2) \<Rightarrow>
                  Inr (tr2, st2\<lparr>mnode_to_inode := (mnode_to_inode st2)(mfile_inum := None)\<rparr>)))"



definition half_symmetric :: "'w mfs_interface \<Rightarrow> bool" where
  "half_symmetric st \<longleftrightarrow>
     (\<forall>mnum inum. inum_to_mnode st inum = Some (Some mnum) \<longrightarrow>
                   mnode_to_inode st mnum = Some inum)"


text \<open>
  An inode layer for the examples: inodes with a type, a link count, a size and, for a
  directory, its entries; \<open>dirlink\<close> and \<open>dirunlink\<close> add and remove a name and count
  the link of the target (and of the directory when asked); \<open>itrunc\<close> sets the size;
  the transaction lists the inodes written to it; inode and mnode numbers are handed out
  from counters.
\<close>

record simple_inode =
  si_type :: "8 word"
  si_nlink :: nat
  si_size :: "32 word"
  si_entries :: "(string \<times> 64 word) list"

record simple_world =
  sw_inodes :: "64 word \<rightharpoonup> simple_inode"
  sw_mnodes :: "64 word list"
  sw_next_inum :: "64 word"
  sw_next_mnum :: "64 word"

definition sw_update :: "simple_world \<Rightarrow> 64 word \<Rightarrow> (simple_inode \<Rightarrow> simple_inode) \<Rightarrow> simple_world" where
  "sw_update w i f =
     (case sw_inodes w i of
        None \<Rightarrow> w
      | Some n \<Rightarrow> w\<lparr>sw_inodes := (sw_inodes w)(i \<mapsto> f n)\<rparr>)"

definition simple_layer :: "(simple_world, 64 word list) inode_layer" where
  "simple_layer =
     \<lparr>iget = (\<lambda>w i. sw_inodes w i \<noteq> None),
      ialloc = (\<lambda>w ty. (sw_next_inum w,
                 w\<lparr>sw_inodes := (sw_inodes w)(sw_next_inum w \<mapsto>
                       \<lparr>si_type = ty, si_nlink = 0, si_size = 0, si_entries = []\<rparr>),
                   sw_next_inum := sw_next_inum w + 1\<rparr>)),
      iupdate = (\<lambda>w i tr. (w, tr @ [i])),
      itrunc = (\<lambda>w i off tr. (sw_update w i (\<lambda>n. n\<lparr>si_size := off\<rparr>), tr @ [i])),
      dirlookup = (\<lambda>w d name. case sw_inodes w d of
                     None \<Rightarrow> None | Some n \<Rightarrow> map_of (si_entries n) name),
      dirlink = (\<lambda>w d name t inc_link.
                   sw_update
                     (sw_update w d (\<lambda>n. n\<lparr>si_entries := (name, t) # si_entries n,
                                             si_nlink := (if inc_link then Suc (si_nlink n)
                                                          else si_nlink n)\<rparr>))
                     t (\<lambda>n. n\<lparr>si_nlink := Suc (si_nlink n)\<rparr>)),
      dirunlink = (\<lambda>w d name t dec_link.
                   sw_update
                     (sw_update w d (\<lambda>n. n\<lparr>si_entries := filter (\<lambda>e. fst e \<noteq> name) (si_entries n),
                                             si_nlink := (if dec_link then si_nlink n - 1
                                                          else si_nlink n)\<rparr>))
                     t (\<lambda>n. n\<lparr>si_nlink := si_nlink n - 1\<rparr>)),
      dir_flush = (\<lambda>w d tr. (w, tr @ [d])),
      inode_type = (\<lambda>w i. case sw_inodes w i of None \<Rightarrow> 0 | Some n \<Rightarrow> si_type n),
      inode_nlink = (\<lambda>w i. case sw_inodes w i of None \<Rightarrow> 0 | Some n \<Rightarrow> si_nlink n),
      set_inode_type = (\<lambda>w i ty. sw_update w i (\<lambda>n. n\<lparr>si_type := ty\<rparr>)),
      inode_dec = (\<lambda>w i. w),
      root_fs_get = (\<lambda>w m. m \<in> set (sw_mnodes w)),
      root_fs_alloc = (\<lambda>w ty. (sw_next_mnum w,
                 w\<lparr>sw_mnodes := sw_next_mnum w # sw_mnodes w,
                   sw_next_mnum := sw_next_mnum w + 1\<rparr>)),
      T_DIR = 1, types_file = 2, types_dir = 1\<rparr>"

text \<open>
  The state of the examples: the root directory (mnode 1, inode 1) holds the name
  \<open>a\<close> of a file (mnode 10, inode 5) of 100 bytes with one link; the mnodes 11 and 12
  have no inode yet.
\<close>

definition example_world :: simple_world where
  "example_world =
     \<lparr>sw_inodes = [1 \<mapsto> \<lparr>si_type = 1, si_nlink = 1, si_size = 0, si_entries = [(''a'', 5)]\<rparr>,
                   5 \<mapsto> \<lparr>si_type = 2, si_nlink = 1, si_size = 100, si_entries = []\<rparr>],
      sw_mnodes = [1, 10, 11, 12], sw_next_inum = 6, sw_next_mnum = 13\<rparr>"

definition example_interface :: "simple_world mfs_interface" where
  "example_interface =
     \<lparr>mnode_to_inode = [1 \<mapsto> 1, 10 \<mapsto> 5],
      inum_to_mnode = [1 \<mapsto> Some 1, 5 \<mapsto> Some 10],
      world = example_world\<rparr>"

text \<open>The world of the examples after the name \<open>a\<close> has been unlinked.\<close>

definition unlinked_world :: simple_world where
  "unlinked_world =
     \<lparr>sw_inodes = [1 \<mapsto> \<lparr>si_type = 1, si_nlink = 1, si_size = 0, si_entries = []\<rparr>,
                   5 \<mapsto> \<lparr>si_type = 2, si_nlink = 0, si_size = 100, si_entries = []\<rparr>],
      sw_mnodes = [1, 10, 11, 12], sw_next_inum = 6, sw_next_mnum = 13\<rparr>"

definition unlinked_interface :: "simple_world mfs_interface" where
  "unlinked_interface =
     \<lparr>mnode_to_inode = [1 \<mapsto> 1, 10 \<mapsto> 5],
      inum_to_mnode = [1 \<mapsto> Some 1],
      world = unlinked_world\<rparr>"


section \<open>Properties\<close>

subsection \<open>Block allocator\<close>

lemma foldl_initialize_bit:
  "foldl (initialize_bit bitmap) a [n..<n + k] =
     a\<lparr>free_bit_vector := free_bit_vector a @ map (\<lambda>b. \<not> bitmap b) [n..<n + k],
       free_bit_freelist := free_bit_freelist a @ filter (\<lambda>b. \<not> bitmap b) [n..<n + k]\<rparr>"
proof (induction k arbitrary: a)
  case 0
  show ?case by simp
next
  case (Suc k)
  have "[n..<n + Suc k] = [n..<n + k] @ [n + k]" by simp
  then show ?case
    using Suc.IH [of a] by (simp add: initialize_bit_def Let_def)
qed

lemma initialize_free_bit_vector_eq:
  "initialize_free_bit_vector sz bitmap =
     \<lparr>free_bit_vector = map (\<lambda>b. \<not> bitmap b) [0..<sz],
      free_bit_freelist = filter (\<lambda>b. \<not> bitmap b) [0..<sz],
      sb_size = sz\<rparr>"
  using foldl_initialize_bit [of bitmap _ 0 sz]
  by (simp add: initialize_free_bit_vector_def)

lemma freelist_inv_initialize: "freelist_inv (initialize_free_bit_vector sz bitmap)"
  by (auto simp: initialize_free_bit_vector_eq freelist_inv_def)

lemma freelist_inv_alloc_block:
  assumes "freelist_inv a" and "alloc_block a = Inr (bno, a')"
  shows "freelist_inv a'"
proof (cases "free_bit_freelist a")
  case Nil
  with assms show ?thesis by (simp add: alloc_block_def)
next
  case (Cons b rest)
  with assms have a': "a' = a\<lparr>free_bit_vector := (free_bit_vector a)[b := False],
                              free_bit_freelist := rest\<rparr>"
    and b: "b < length (free_bit_vector a)"
    by (auto simp: alloc_block_def split: if_splits)
  from assms(1) Cons have d: "distinct (b # rest)"
    and m: "\<And>x. x \<in> set (b # rest) \<longleftrightarrow> x < length (free_bit_vector a) \<and> free_bit_vector a ! x"
    and l: "length (free_bit_vector a) = sb_size a"
    by (simp_all add: freelist_inv_def)
  have "x \<in> set rest \<longleftrightarrow>
          x < length (free_bit_vector a) \<and> (free_bit_vector a)[b := False] ! x" for x
    using d m [of x] b by (cases "x = b") auto
  with d l show ?thesis by (simp add: a' freelist_inv_def)
qed

lemma freelist_inv_free_block:
  assumes "freelist_inv a" and "free_block a bno = Inr a'"
  shows "freelist_inv a'"
proof -
  from assms(2) have a': "a' = a\<lparr>free_bit_vector := (free_bit_vector a)[bno := True],
                                  free_bit_freelist := bno # free_bit_freelist a\<rparr>"
    and b: "bno < length (free_bit_vector a)" and nf: "\<not> free_bit_vector a ! bno"
    by (auto simp: free_block_def split: if_splits)
  from assms(1) have d: "distinct (free_bit_freelist a)"
    and m: "\<And>x. x \<in> set (free_bit_freelist a) \<longleftrightarrow>
                  x < length (free_bit_vector a) \<and> free_bit_vector a ! x"
    and l: "length (free_bit_vector a) = sb_size a"
    by (simp_all add: freelist_inv_def)
  have "x \<in> set (bno # free_bit_freelist a) \<longleftrightarrow>
          x < length (free_bit_vector a) \<and> (free_bit_vector a)[bno := True] ! x" for x
    using m [of x] b by (cases "x = bno") auto
  moreover have "bno \<notin> set (free_bit_freelist a)" using m [of bno] nf by simp
  ultimately show ?thesis using d l by (simp add: a' freelist_inv_def)
qed

lemma allocator_state_inv: "allocator_state a \<Longrightarrow> freelist_inv a"
proof (induction rule: allocator_state.induct)
  case (initialized sz bitmap)
  show ?case by (rule freelist_inv_initialize)
next
  case (allocated a bno a')
  from allocated.IH allocated.hyps(2) show ?case by (rule freelist_inv_alloc_block)
next
  case (freed a bno a')
  from freed.IH freed.hyps(2) show ?case by (rule freelist_inv_free_block)
qed

text \<open>
  C9. In every allocator state \<open>alloc_block\<close> returns (no assertion fails). With an
  empty freelist it returns the sentinel \<open>sb.size\<close>, which is no block number of the
  vector, and leaves the state as it was. Otherwise it returns a block number whose free
  bit was set, and afterwards that bit is clear, every other bit is as before, and the
  block is off the freelist, which has lost nothing else.
\<close>

theorem alloc_block_returns:
  assumes "allocator_state a"
  shows "\<exists>bno a'. alloc_block a = Inr (bno, a') \<and>
           (if free_bit_freelist a = []
            then bno = sb_size a \<and> bno = length (free_bit_vector a) \<and> a' = a
            else bno < length (free_bit_vector a) \<and> free_bit_vector a ! bno \<and>
                 free_bit_vector a' = (free_bit_vector a)[bno := False] \<and>
                 \<not> free_bit_vector a' ! bno \<and>
                 bno \<notin> set (free_bit_freelist a') \<and>
                 set (free_bit_freelist a') = set (free_bit_freelist a) - {bno} \<and>
                 sb_size a' = sb_size a)"
proof -
  from assms have inv: "freelist_inv a" by (rule allocator_state_inv)
  show ?thesis
  proof (cases "free_bit_freelist a")
    case Nil
    from inv have l: "length (free_bit_vector a) = sb_size a"
      by (simp add: freelist_inv_def)
    have "alloc_block a = Inr (sb_size a, a)" by (simp add: alloc_block_def Nil)
    with l Nil show ?thesis by simp
  next
    case (Cons b rest)
    from inv have d: "distinct (free_bit_freelist a)"
      and m: "\<And>x. x \<in> set (free_bit_freelist a) \<longleftrightarrow>
                    x < length (free_bit_vector a) \<and> free_bit_vector a ! x"
      by (simp_all add: freelist_inv_def)
    from d Cons have nb: "b \<notin> set rest" by simp
    from m [of b] Cons have b: "b < length (free_bit_vector a)" "free_bit_vector a ! b"
      by simp_all
    have "alloc_block a = Inr (b, a\<lparr>free_bit_vector := (free_bit_vector a)[b := False],
                                      free_bit_freelist := rest\<rparr>)"
      using b by (simp add: alloc_block_def Cons)
    with nb b Cons show ?thesis by auto
  qed
qed

theorem alloc_block_returns_witness:
  "allocator_state (initialize_free_bit_vector 4 (\<lambda>b. b < 2)) \<and>
   alloc_block (initialize_free_bit_vector 4 (\<lambda>b. b < 2)) =
     Inr (2, \<lparr>free_bit_vector = [False, False, False, True],
              free_bit_freelist = [3], sb_size = 4\<rparr>)"
proof -
  have s: "allocator_state (initialize_free_bit_vector 4 (\<lambda>b. b < 2))"
    by (rule allocator_state.initialized)
  have e: "initialize_free_bit_vector 4 (\<lambda>b. b < 2) =
             \<lparr>free_bit_vector = [False, False, True, True],
              free_bit_freelist = [2, 3], sb_size = 4\<rparr>"
    by (simp add: initialize_free_bit_vector_eq upt_rec)
  from alloc_block_returns [OF s] show ?thesis
    using s by (simp add: e alloc_block_def)
qed

subsection \<open>Journal recovery\<close>













subsection \<open>The fsync dependency walk\<close>

lemma find_dependent_step_eq:
  "find_dependent_step cpd cd inum isdir index w =
     (let (dep, mv') = is_dependent cpd cd inum isdir (operation_vec w ! index) (mnode_vec w)
      in if dep then take_dependent index (w\<lparr>mnode_vec := mv'\<rparr>) else w\<lparr>mnode_vec := mv'\<rparr>)"
  by (simp add: find_dependent_step_def is_dependent_def Let_def split: prod.splits)

lemma find_dependent_loop_Suc:
  "find_dependent_loop cpd cd inum isdir (Suc index) w =
     find_dependent_loop cpd cd inum isdir index (find_dependent_step cpd cd inum isdir index w)"
  by (cases index) (simp_all add: Let_def)

lemma find_dependent_loop_pass:
  "find_dependent_loop cpd cd inum isdir (length xs)
     \<lparr>operation_vec = xs @ ys, mnode_vec = mv, dependent_ops = d\<rparr> =
   (case backward_pass cpd cd inum isdir mv (rev xs) of
      (sel, kept, mv2) \<Rightarrow>
        \<lparr>operation_vec = rev kept @ ys, mnode_vec = mv2, dependent_ops = d @ sel\<rparr>)"
proof (induction xs arbitrary: ys mv d rule: rev_induct)
  case Nil
  show ?case by simp
next
  case (snoc x xs)
  obtain dep mv1 where dec: "is_dependent cpd cd inum isdir x mv = (dep, mv1)"
    by (cases "is_dependent cpd cd inum isdir x mv")
  obtain sel kept mv2 where bp: "backward_pass cpd cd inum isdir mv1 (rev xs) = (sel, kept, mv2)"
    by (cases "backward_pass cpd cd inum isdir mv1 (rev xs)")
  let ?w = "\<lparr>operation_vec = (xs @ [x]) @ ys, mnode_vec = mv, dependent_ops = d\<rparr>"
  have len: "length (xs @ [x]) = Suc (length xs)" by simp
  show ?case
  proof (cases dep)
    case True
    have "find_dependent_step cpd cd inum isdir (length xs) ?w =
            \<lparr>operation_vec = xs @ ys, mnode_vec = mv1, dependent_ops = d @ [x]\<rparr>"
      using dec True by (simp add: find_dependent_step_eq take_dependent_def)
    then show ?thesis
      unfolding len find_dependent_loop_Suc
      using snoc.IH [of ys mv1 "d @ [x]"] dec bp True by simp
  next
    case False
    have "find_dependent_step cpd cd inum isdir (length xs) ?w =
            \<lparr>operation_vec = xs @ x # ys, mnode_vec = mv1, dependent_ops = d\<rparr>"
      using dec False by (simp add: find_dependent_step_eq)
    then show ?thesis
      unfolding len find_dependent_loop_Suc
      using snoc.IH [of "x # ys" mv1 d] dec bp False by simp
  qed
qed

lemma find_dependent_ops_pass:
  "find_dependent_ops cpd cd log_vec inum dep_ops isdir =
     (case backward_pass cpd cd inum isdir [inum] (rev log_vec) of
        (sel, kept, mv2) \<Rightarrow> (rev kept, dep_ops @ sel))"
proof (cases log_vec)
  case Nil
  then show ?thesis by (simp add: find_dependent_ops_def)
next
  case (Cons a as)
  then have ne: "length log_vec \<noteq> 0" by simp
  show ?thesis
    using find_dependent_loop_pass [of cpd cd inum isdir log_vec "[]" "[inum]" dep_ops] ne
    by (simp add: find_dependent_ops_def Let_def split: prod.splits)
qed

lemma apply_dependent_loop_Suc:
  "apply_dependent_loop (Suc i) dep_ops applied =
     apply_dependent_loop i dep_ops (applied @ [dep_ops ! i])"
  by (cases i) (simp_all add: Let_def)

lemma apply_dependent_loop_rev:
  "apply_dependent_loop (length xs) (xs @ ys) applied = applied @ rev xs"
proof (induction xs arbitrary: ys applied rule: rev_induct)
  case Nil
  show ?case by simp
next
  case (snoc x xs)
  have "apply_dependent_loop (length (xs @ [x])) ((xs @ [x]) @ ys) applied =
          apply_dependent_loop (length xs) (xs @ x # ys) (applied @ [x])"
    by (simp add: apply_dependent_loop_Suc del: apply_dependent_loop.simps)
  then show ?case using snoc.IH [of "x # ys" "applied @ [x]"] by simp
qed

lemma backward_pass_subseq:
  "backward_pass cpd cd inum isdir mv xs = (sel, kept, mv2) \<Longrightarrow>
     subseq sel xs \<and> subseq kept xs"
  by (induction xs arbitrary: mv sel kept mv2) (auto split: prod.splits if_splits)

lemma backward_pass_Cons_eq:
  assumes "is_dependent cpd cd inum isdir x mv = (dep, mv1)"
    and "backward_pass cpd cd inum isdir mv1 xs = (sel, kept, mv2)"
  shows "backward_pass cpd cd inum isdir mv (x # xs) =
           (if dep then (x # sel, kept, mv2) else (sel, x # kept, mv2))"
  using assms by simp

lemma backward_pass_set:
  "backward_pass cpd cd inum isdir mv xs = (sel, kept, mv2) \<Longrightarrow>
     set sel \<union> set kept = set xs"
proof (induction xs arbitrary: mv sel kept mv2)
  case Nil
  then show ?case by simp
next
  case (Cons x xs)
  obtain dep mv1 where d: "is_dependent cpd cd inum isdir x mv = (dep, mv1)"
    by (cases "is_dependent cpd cd inum isdir x mv")
  obtain sel' kept' mv2' where b: "backward_pass cpd cd inum isdir mv1 xs = (sel', kept', mv2')"
    by (cases "backward_pass cpd cd inum isdir mv1 xs")
  from Cons.IH [OF b] have ih: "set sel' \<union> set kept' = set xs" .
  from Cons.prems backward_pass_Cons_eq [OF d b]
  have "(sel, kept, mv2) = (if dep then (x # sel', kept', mv2') else (sel', x # kept', mv2'))"
    by simp
  with ih show ?case by (cases dep) auto
qed

lemma subseq_rev: "subseq xs ys \<Longrightarrow> subseq (rev xs) (rev ys)"
proof (induction rule: list_emb.induct)
  case (list_emb_Nil ys)
  show ?case by simp
next
  case (list_emb_Cons xs ys y)
  then show ?case by (simp add: subseq_rev_drop_many)
next
  case (list_emb_Cons2 x y xs ys)
  then show ?case by (simp add: list_emb_append_mono)
qed

lemma subseq_sorted:
  fixes ys :: "('a::linorder) list"
  shows "subseq xs ys \<Longrightarrow> sorted ys \<Longrightarrow> sorted xs"
  by (auto simp: subseq_conv_nths intro: sorted_nths)

lemma process_metadata_log_eq:
  "process_metadata_log cpd cd log_vec inum isdir =
     (rev (snd (find_dependent_ops cpd cd log_vec inum [] isdir)),
      fst (find_dependent_ops cpd cd log_vec inum [] isdir))"
proof -
  obtain v d where f: "find_dependent_ops cpd cd log_vec inum [] isdir = (v, d)"
    by (cases "find_dependent_ops cpd cd log_vec inum [] isdir")
  have "apply_dependent_loop (length d) d [] = rev d"
    using apply_dependent_loop_rev [of d "[]" "[]"] by simp
  then show ?thesis
    by (cases "d = []") (simp_all add: process_metadata_log_def f)
qed

lemma op_parent_child_subset: "set (op_parent_child opn) \<subseteq> set (op_mnums opn)"
  by (cases opn) auto

lemma is_dependent_spec:
  "is_dependent check_parent_dependency check_dependency inum isdir opn mv =
     check_dependency opn mv"
  using op_parent_child_subset [of opn]
  by (auto simp: is_dependent_def check_parent_dependency_def check_dependency_def)

lemma check_dependency_eq:
  "check_dependency opn mv =
     (set (op_mnums opn) \<inter> set mv \<noteq> {},
      if set (op_mnums opn) \<inter> set mv \<noteq> {} then mv @ op_mnums opn else mv)"
  by (auto simp: check_dependency_def)

lemma backward_closed_butlast:
  assumes "backward_closed N (xs @ [x]) S"
  shows "backward_closed N xs S"
  unfolding backward_closed_def
proof (intro conjI ballI allI impI)
  fix opn assume "opn \<in> set xs" "set (op_mnums opn) \<inter> N \<noteq> {}"
  with assms show "opn \<in> S" by (simp add: backward_closed_def)
next
  fix i j
  assume a: "i < j \<and> j < length xs \<and> xs ! j \<in> S \<and>
             set (op_mnums (xs ! i)) \<inter> set (op_mnums (xs ! j)) \<noteq> {}"
  then have "(xs @ [x]) ! i = xs ! i" "(xs @ [x]) ! j = xs ! j" "j < length (xs @ [x])"
    by (simp_all add: nth_append)
  with assms a show "xs ! i \<in> S"
    unfolding backward_closed_def by metis
qed

lemma backward_closed_newest:
  assumes c: "backward_closed N (xs @ [x]) S" and x: "x \<in> S"
  shows "backward_closed (N \<union> set (op_mnums x)) xs S"
  unfolding backward_closed_def
proof (intro conjI ballI allI impI)
  fix opn assume o: "opn \<in> set xs" and h: "set (op_mnums opn) \<inter> (N \<union> set (op_mnums x)) \<noteq> {}"
  show "opn \<in> S"
  proof (cases "set (op_mnums opn) \<inter> N \<noteq> {}")
    case True
    with c o show ?thesis by (simp add: backward_closed_def)
  next
    case False
    with h have sh: "set (op_mnums opn) \<inter> set (op_mnums x) \<noteq> {}" by auto
    from o obtain i where i: "i < length xs" "xs ! i = opn" by (auto simp: in_set_conv_nth)
    then have "(xs @ [x]) ! i = opn" "(xs @ [x]) ! (length xs) = x" "length xs < length (xs @ [x])"
      by (simp_all add: nth_append)
    with c x sh i(1) show ?thesis
      unfolding backward_closed_def by metis
  qed
next
  fix i j
  assume a: "i < j \<and> j < length xs \<and> xs ! j \<in> S \<and>
             set (op_mnums (xs ! i)) \<inter> set (op_mnums (xs ! j)) \<noteq> {}"
  from backward_closed_butlast [OF c] a show "xs ! i \<in> S"
    unfolding backward_closed_def by metis
qed

lemma backward_pass_least:
  assumes "backward_pass check_parent_dependency check_dependency inum isdir mv (rev log_vec)
             = (sel, kept, mv2)"
    and "backward_closed (set mv) log_vec S"
  shows "set sel \<subseteq> S"
  using assms
proof (induction log_vec arbitrary: mv sel kept mv2 rule: rev_induct)
  case Nil
  then show ?case by simp
next
  case (snoc x xs)
  let ?hit = "set (op_mnums x) \<inter> set mv \<noteq> {}"
  let ?mv1 = "if ?hit then mv @ op_mnums x else mv"
  have d: "is_dependent check_parent_dependency check_dependency inum isdir x mv = (?hit, ?mv1)"
    by (simp only: is_dependent_spec check_dependency_eq)
  obtain sel' kept' mv2' where
    b: "backward_pass check_parent_dependency check_dependency inum isdir ?mv1 (rev xs)
          = (sel', kept', mv2')"
    by (cases "backward_pass check_parent_dependency check_dependency inum isdir ?mv1 (rev xs)")
  from snoc.prems(1) backward_pass_Cons_eq [OF d b]
  have r: "(sel, kept, mv2) = (if ?hit then (x # sel', kept', mv2') else (sel', x # kept', mv2'))"
    by simp
  show ?case
  proof (cases ?hit)
    case True
    with snoc.prems(2) have x: "x \<in> S" by (simp add: backward_closed_def)
    from backward_closed_newest [OF snoc.prems(2) x] True
    have "backward_closed (set ?mv1) xs S" by simp
    from snoc.IH [OF b this] have "set sel' \<subseteq> S" .
    with x r True show ?thesis by simp
  next
    case False
    from backward_closed_butlast [OF snoc.prems(2)] False
    have "backward_closed (set ?mv1) xs S" by simp
    from snoc.IH [OF b this] have "set sel' \<subseteq> S" .
    with r False show ?thesis by simp
  qed
qed

lemma backward_pass_closed:
  assumes "backward_pass check_parent_dependency check_dependency inum isdir mv (rev log_vec)
             = (sel, kept, mv2)"
    and "distinct log_vec"
  shows "backward_closed (set mv) log_vec (set sel)"
  using assms
proof (induction log_vec arbitrary: mv sel kept mv2 rule: rev_induct)
  case Nil
  then show ?case by (simp add: backward_closed_def)
next
  case (snoc x xs)
  let ?hit = "set (op_mnums x) \<inter> set mv \<noteq> {}"
  let ?mv1 = "if ?hit then mv @ op_mnums x else mv"
  have d: "is_dependent check_parent_dependency check_dependency inum isdir x mv = (?hit, ?mv1)"
    by (simp only: is_dependent_spec check_dependency_eq)
  obtain sel' kept' mv2' where
    b: "backward_pass check_parent_dependency check_dependency inum isdir ?mv1 (rev xs)
          = (sel', kept', mv2')"
    by (cases "backward_pass check_parent_dependency check_dependency inum isdir ?mv1 (rev xs)")
  from snoc.prems(1) backward_pass_Cons_eq [OF d b]
  have r: "(sel, kept, mv2) = (if ?hit then (x # sel', kept', mv2') else (sel', x # kept', mv2'))"
    by simp
  from snoc.prems(2) have dx: "distinct xs" and nx: "x \<notin> set xs" by simp_all
  from snoc.IH [OF b dx] have ih: "backward_closed (set ?mv1) xs (set sel')" .
  from backward_pass_set [OF b] have sub: "set sel' \<subseteq> set xs" by auto
  have nth_old: "\<And>i. i < length xs \<Longrightarrow> (xs @ [x]) ! i = xs ! i" by (simp add: nth_append)
  show ?case
  proof (cases ?hit)
    case True
    with r have sel: "set sel = insert x (set sel')" by simp
    from ih True have ih1: "\<And>opn. opn \<in> set xs \<Longrightarrow>
        set (op_mnums opn) \<inter> (set mv \<union> set (op_mnums x)) \<noteq> {} \<Longrightarrow> opn \<in> set sel'"
      by (simp add: backward_closed_def)
    from ih have ih2: "\<And>i j. i < j \<Longrightarrow> j < length xs \<Longrightarrow> xs ! j \<in> set sel' \<Longrightarrow>
        set (op_mnums (xs ! i)) \<inter> set (op_mnums (xs ! j)) \<noteq> {} \<Longrightarrow> xs ! i \<in> set sel'"
      unfolding backward_closed_def by blast
    show ?thesis
      unfolding backward_closed_def sel
    proof (intro conjI ballI allI impI)
      fix opn assume o: "opn \<in> set (xs @ [x])" and h: "set (op_mnums opn) \<inter> set mv \<noteq> {}"
      show "opn \<in> insert x (set sel')"
      proof (cases "opn = x")
        case True then show ?thesis by simp
      next
        case False
        with o have "opn \<in> set xs" by simp
        moreover from h have "set (op_mnums opn) \<inter> (set mv \<union> set (op_mnums x)) \<noteq> {}" by auto
        ultimately show ?thesis using ih1 by simp
      qed
    next
      fix i j
      assume a: "i < j \<and> j < length (xs @ [x]) \<and> (xs @ [x]) ! j \<in> insert x (set sel') \<and>
                 set (op_mnums ((xs @ [x]) ! i)) \<inter> set (op_mnums ((xs @ [x]) ! j)) \<noteq> {}"
      then have i: "i < length xs" by simp
      then have xi: "(xs @ [x]) ! i = xs ! i" "xs ! i \<in> set xs" by (simp_all add: nth_append)
      show "(xs @ [x]) ! i \<in> insert x (set sel')"
      proof (cases "(xs @ [x]) ! j = x")
        case True
        with a xi have "set (op_mnums (xs ! i)) \<inter> (set mv \<union> set (op_mnums x)) \<noteq> {}"
          by auto
        with ih1 [OF xi(2)] xi show ?thesis by simp
      next
        case False
        with a have j: "j < length xs" by (cases "j = length xs") simp_all
        then have xj: "(xs @ [x]) ! j = xs ! j" by (simp add: nth_append)
        with a False have "xs ! j \<in> set sel'" by simp
        from ih2 [OF _ j this, of i] a xi xj show ?thesis by simp
      qed
    qed
  next
    case False
    with r have sel: "set sel = set sel'" by simp
    from ih False have ih1: "\<And>opn. opn \<in> set xs \<Longrightarrow>
        set (op_mnums opn) \<inter> set mv \<noteq> {} \<Longrightarrow> opn \<in> set sel'"
      by (simp add: backward_closed_def)
    from ih have ih2: "\<And>i j. i < j \<Longrightarrow> j < length xs \<Longrightarrow> xs ! j \<in> set sel' \<Longrightarrow>
        set (op_mnums (xs ! i)) \<inter> set (op_mnums (xs ! j)) \<noteq> {} \<Longrightarrow> xs ! i \<in> set sel'"
      unfolding backward_closed_def by blast
    show ?thesis
      unfolding backward_closed_def sel
    proof (intro conjI ballI allI impI)
      fix opn assume o: "opn \<in> set (xs @ [x])" and h: "set (op_mnums opn) \<inter> set mv \<noteq> {}"
      from h False have "opn \<noteq> x" by auto
      with o have "opn \<in> set xs" by simp
      with h ih1 show "opn \<in> set sel'" by simp
    next
      fix i j
      assume a: "i < j \<and> j < length (xs @ [x]) \<and> (xs @ [x]) ! j \<in> set sel' \<and>
                 set (op_mnums ((xs @ [x]) ! i)) \<inter> set (op_mnums ((xs @ [x]) ! j)) \<noteq> {}"
      then have i: "i < length xs" by simp
      then have xi: "(xs @ [x]) ! i = xs ! i" by (simp add: nth_append)
      from a sub nx have "(xs @ [x]) ! j \<noteq> x" by auto
      with a have j: "j < length xs" by (cases "j = length xs") simp_all
      then have xj: "(xs @ [x]) ! j = xs ! j" by (simp add: nth_append)
      with a have "xs ! j \<in> set sel'" by simp
      from ih2 [OF _ j this, of i] a xi xj show "(xs @ [x]) ! i \<in> set sel'" by simp
    qed
  qed
qed

lemma backward_pass_disjoint:
  "backward_pass cpd cd inum isdir mv xs = (sel, kept, mv2) \<Longrightarrow> distinct xs \<Longrightarrow>
     set sel \<inter> set kept = {}"
proof (induction xs arbitrary: mv sel kept mv2)
  case Nil
  then show ?case by simp
next
  case (Cons x xs)
  obtain dep mv1 where d: "is_dependent cpd cd inum isdir x mv = (dep, mv1)"
    by (cases "is_dependent cpd cd inum isdir x mv")
  obtain sel' kept' mv2' where b: "backward_pass cpd cd inum isdir mv1 xs = (sel', kept', mv2')"
    by (cases "backward_pass cpd cd inum isdir mv1 xs")
  from Cons.prems(2) have dx: "distinct xs" and nx: "x \<notin> set xs" by simp_all
  from Cons.IH [OF b dx] have ih: "set sel' \<inter> set kept' = {}" .
  from backward_pass_set [OF b] have sub: "set sel' \<union> set kept' = set xs" .
  from Cons.prems(1) backward_pass_Cons_eq [OF d b]
  have "(sel, kept, mv2) = (if dep then (x # sel', kept', mv2') else (sel', x # kept', mv2'))"
    by simp
  with ih sub nx show ?case by (cases dep) auto
qed

lemma closure_ops_backward_closed: "backward_closed {M} log_vec (closure_ops log_vec M)"
  unfolding backward_closed_def
proof (intro conjI ballI allI impI)
  fix opn assume "opn \<in> set log_vec" "set (op_mnums opn) \<inter> {M} \<noteq> {}"
  then show "opn \<in> closure_ops log_vec M"
    by (auto simp: closure_ops_def intro: mnum_closure.target)
next
  fix i j
  assume a: "i < j \<and> j < length log_vec \<and> log_vec ! j \<in> closure_ops log_vec M \<and>
             set (op_mnums (log_vec ! i)) \<inter> set (op_mnums (log_vec ! j)) \<noteq> {}"
  then obtain m where m: "m \<in> set (op_mnums (log_vec ! i))" "m \<in> set (op_mnums (log_vec ! j))"
    by auto
  from a obtain m' where m': "m' \<in> set (op_mnums (log_vec ! j))" "m' \<in> mnum_closure log_vec M"
    and j: "log_vec ! j \<in> set log_vec"
    by (auto simp: closure_ops_def)
  from mnum_closure.mentioned [OF j m'(1) m'(2) m(2)] have "m \<in> mnum_closure log_vec M" .
  moreover from a have "log_vec ! i \<in> set log_vec" by simp
  ultimately show "log_vec ! i \<in> closure_ops log_vec M"
    using m(1) by (auto simp: closure_ops_def)
qed


text \<open>
  C6. Whatever the two dependency tests are, \<open>process_metadata_log\<close> applies the
  dependent operations in the reverse of the order in which \<open>find_dependent_ops\<close>
  collected them. The operations applied are a subsequence of the log in its own order,
  so with the log in timestamp order they are applied oldest first.
\<close>

theorem process_metadata_log_oldest_first:
  assumes "process_metadata_log cpd cd log_vec inum isdir = (applied, log_vec')"
  shows "applied = rev (snd (find_dependent_ops cpd cd log_vec inum [] isdir)) \<and>
         subseq applied log_vec \<and>
         (sorted (map op_timestamp log_vec) \<longrightarrow> sorted (map op_timestamp applied))"
proof -
  obtain sel kept mv2 where
    b: "backward_pass cpd cd inum isdir [inum] (rev log_vec) = (sel, kept, mv2)"
    by (cases "backward_pass cpd cd inum isdir [inum] (rev log_vec)")
  then have f: "find_dependent_ops cpd cd log_vec inum [] isdir = (rev kept, sel)"
    by (simp add: find_dependent_ops_pass)
  from assms have a: "applied = rev sel"
    by (simp add: process_metadata_log_eq f)
  from backward_pass_subseq [OF b] have "subseq sel (rev log_vec)" by simp
  from subseq_rev [OF this] have s: "subseq applied log_vec" by (simp add: a)
  then have "subseq (map op_timestamp applied) (map op_timestamp log_vec)"
    by (rule subseq_map)
  then have "sorted (map op_timestamp log_vec) \<longrightarrow> sorted (map op_timestamp applied)"
    by (auto intro: subseq_sorted)
  with a s f show ?thesis by simp
qed



lemma scenario_pass:
  "backward_pass check_parent_dependency check_dependency 10 isdir [10]
     (rev [mfs_operation_create 1 3 1 1 ''d1'', mfs_operation_create 2 4 3 1 ''d2'',
      mfs_operation_create 3 10 4 2 ''f'', mfs_operation_create 4 11 4 2 ''g'']) =
   ([mfs_operation_create 3 10 4 2 ''f'', mfs_operation_create 2 4 3 1 ''d2'',
     mfs_operation_create 1 3 1 1 ''d1''],
    [mfs_operation_create 4 11 4 2 ''g''], [10, 10, 4, 4, 3, 3, 1])"
  by (simp add: is_dependent_spec check_dependency_def)

lemma scenario_log:
  "process_metadata_log check_parent_dependency check_dependency
     [mfs_operation_create 1 3 1 1 ''d1'', mfs_operation_create 2 4 3 1 ''d2'',
      mfs_operation_create 3 10 4 2 ''f'', mfs_operation_create 4 11 4 2 ''g''] 10 isdir =
   ([mfs_operation_create 1 3 1 1 ''d1'', mfs_operation_create 2 4 3 1 ''d2'',
     mfs_operation_create 3 10 4 2 ''f''],
    [mfs_operation_create 4 11 4 2 ''g''])"
  by (simp only: process_metadata_log_eq find_dependent_ops_pass scenario_pass)
     simp

theorem process_metadata_log_oldest_first_witness:
  "process_metadata_log check_parent_dependency check_dependency
     [mfs_operation_create 1 3 1 1 ''d1'', mfs_operation_create 2 4 3 1 ''d2'',
      mfs_operation_create 3 10 4 2 ''f'', mfs_operation_create 4 11 4 2 ''g''] 10 False =
   ([mfs_operation_create 1 3 1 1 ''d1'', mfs_operation_create 2 4 3 1 ''d2'',
     mfs_operation_create 3 10 4 2 ''f''],
    [mfs_operation_create 4 11 4 2 ''g'']) \<and>
   sorted (map op_timestamp
     [mfs_operation_create 1 3 1 1 ''d1'', mfs_operation_create 2 4 3 1 ''d2'',
      mfs_operation_create 3 10 4 2 ''f'', mfs_operation_create 4 11 4 2 ''g'']) \<and>
   sorted (map op_timestamp
     [mfs_operation_create 1 3 1 1 ''d1'', mfs_operation_create 2 4 3 1 ''d2'',
      mfs_operation_create 3 10 4 2 ''f''])"
proof -
  have s: "sorted (map op_timestamp
     [mfs_operation_create 1 3 1 1 ''d1'', mfs_operation_create 2 4 3 1 ''d2'',
      mfs_operation_create 3 10 4 2 ''f'', mfs_operation_create 4 11 4 2 ''g''])"
    by simp
  note t = process_metadata_log_oldest_first [OF scenario_log [of False]]
  from t [THEN conjunct2, THEN conjunct2] s
  have "sorted (map op_timestamp
     [mfs_operation_create 1 3 1 1 ''d1'', mfs_operation_create 2 4 3 1 ''d2'',
      mfs_operation_create 3 10 4 2 ''f''])" by (rule mp)
  with scenario_log [of False] s show ?thesis by (intro conjI)
qed

text \<open>
  C5, as the code has it, with the dependency tests as the specification describes them.
  The operations that fsync of \<open>M\<close> selects and applies are the smallest set of
  operations of the log that holds every operation mentioning \<open>M\<close> and, with an
  operation, every older operation that mentions an mnum the newer one mentions. Every
  one of them mentions an mnum of the transitive closure of \<open>M\<close>, and they are the
  operations that leave the log. An operation that shares an mnum only with an older
  selected operation stays in the log. The log holds pointers to distinct operations.
\<close>

theorem fsync_selects_backward_closure:
  assumes "distinct log_vec"
    and "process_metadata_log check_parent_dependency check_dependency log_vec M isdir
           = (applied, log_vec')"
  shows "backward_closed {M} log_vec (set applied) \<and>
         (\<forall>S. backward_closed {M} log_vec S \<longrightarrow> set applied \<subseteq> S) \<and>
         set applied \<subseteq> closure_ops log_vec M \<and>
         set log_vec' = set log_vec - set applied"
proof -
  obtain sel kept mv2 where
    b: "backward_pass check_parent_dependency check_dependency M isdir [M] (rev log_vec)
          = (sel, kept, mv2)"
    by (cases "backward_pass check_parent_dependency check_dependency M isdir [M] (rev log_vec)")
  then have f: "find_dependent_ops check_parent_dependency check_dependency log_vec M [] isdir
                  = (rev kept, sel)"
    by (simp add: find_dependent_ops_pass)
  from assms(2) have "applied = rev sel" and "log_vec' = rev kept"
    by (simp_all add: process_metadata_log_eq f)
  then have a: "set applied = set sel" and l: "set log_vec' = set kept"
    by simp_all
  from backward_pass_closed [OF b assms(1)]
  have c: "backward_closed {M} log_vec (set sel)" by simp
  have least: "\<And>S. backward_closed {M} log_vec S \<Longrightarrow> set sel \<subseteq> S"
    using backward_pass_least [OF b] by simp
  from least [OF closure_ops_backward_closed] have sub: "set sel \<subseteq> closure_ops log_vec M" .
  from backward_pass_set [OF b] have u: "set sel \<union> set kept = set log_vec" by simp
  from backward_pass_disjoint [OF b] assms(1) have d: "set sel \<inter> set kept = {}" by simp
  from u d have "set kept = set log_vec - set sel" by auto
  with c least sub show ?thesis unfolding a l by blast
qed

theorem fsync_selects_backward_closure_witness:
  "distinct
     [mfs_operation_create 1 3 1 1 ''d1'', mfs_operation_create 2 4 3 1 ''d2'',
      mfs_operation_create 3 10 4 2 ''f'', mfs_operation_create 4 11 4 2 ''g''] \<and>
   process_metadata_log check_parent_dependency check_dependency
     [mfs_operation_create 1 3 1 1 ''d1'', mfs_operation_create 2 4 3 1 ''d2'',
      mfs_operation_create 3 10 4 2 ''f'', mfs_operation_create 4 11 4 2 ''g''] 10 False =
   ([mfs_operation_create 1 3 1 1 ''d1'', mfs_operation_create 2 4 3 1 ''d2'',
     mfs_operation_create 3 10 4 2 ''f''],
    [mfs_operation_create 4 11 4 2 ''g'']) \<and>
   backward_closed {10}
     [mfs_operation_create 1 3 1 1 ''d1'', mfs_operation_create 2 4 3 1 ''d2'',
      mfs_operation_create 3 10 4 2 ''f'', mfs_operation_create 4 11 4 2 ''g'']
     (set [mfs_operation_create 1 3 1 1 ''d1'', mfs_operation_create 2 4 3 1 ''d2'',
           mfs_operation_create 3 10 4 2 ''f''])"
proof -
  have d: "distinct
     [mfs_operation_create 1 3 1 1 ''d1'', mfs_operation_create 2 4 3 1 ''d2'',
      mfs_operation_create 3 10 4 2 ''f'', mfs_operation_create 4 11 4 2 ''g'']"
    by simp
  note t = fsync_selects_backward_closure [OF d scenario_log [of False]]
  from d scenario_log [of False] t [THEN conjunct1] show ?thesis by (intro conjI)
qed

theorem fsync_closure_counterexample:
  "mfs_operation_create 4 11 4 2 ''g'' \<in> closure_ops
     [mfs_operation_create 1 3 1 1 ''d1'', mfs_operation_create 2 4 3 1 ''d2'',
      mfs_operation_create 3 10 4 2 ''f'', mfs_operation_create 4 11 4 2 ''g''] 10 \<and>
   mfs_operation_create 4 11 4 2 ''g'' \<notin> set (fst
     (process_metadata_log check_parent_dependency check_dependency
        [mfs_operation_create 1 3 1 1 ''d1'', mfs_operation_create 2 4 3 1 ''d2'',
      mfs_operation_create 3 10 4 2 ''f'', mfs_operation_create 4 11 4 2 ''g''] 10 False))"
proof -
  let ?v = "[mfs_operation_create 1 3 1 1 ''d1'', mfs_operation_create 2 4 3 1 ''d2'',
      mfs_operation_create 3 10 4 2 ''f'', mfs_operation_create 4 11 4 2 ''g'']"
  have "(10 :: 64 word) \<in> mnum_closure ?v 10" by (rule mnum_closure.target)
  have "(4 :: 64 word) \<in> mnum_closure ?v 10"
    by (rule mnum_closure.mentioned [of "mfs_operation_create 3 10 4 2 ''f''" _ 10])
       (simp_all add: mnum_closure.target)
  then have "mfs_operation_create 4 11 4 2 ''g'' \<in> closure_ops ?v 10"
    by (simp add: closure_ops_def)
  then show ?thesis by (simp only: scenario_log) simp
qed

subsection \<open>The commit of a transaction\<close>

lemma write_journal_hdrblock_Inr:
  assumes "write_journal_hdrblock c h d (s, recs) = Inr (s', recs')"
  shows "s' = s\<lparr>journal_offset := journal_offset s + hdr_size c + BSIZE,
                 events := events s @ [Writei_journal (journal_offset s) h]\<rparr> \<and>
         recs' = recs @ [h]"
  using assms by (auto simp: write_journal_hdrblock_def Let_def split: if_splits)

lemma journal_events_append:
  "journal_events off sz (hs @ hs') =
     journal_events off sz hs @ journal_events (off + length hs * sz) sz hs'"
  by (induction hs arbitrary: off) (simp_all add: add.assoc)

lemma write_journal_transaction_blocks_Inr:
  assumes "write_journal_transaction_blocks c bs ts (s, recs) = Inr (s', recs')"
  shows "events s' = events s @ journal_events (journal_offset s) (hdr_size c + BSIZE)
                       (map (\<lambda>b. \<lparr>timestamp = ts, blocknum = fst b, block_type = jrnl_data\<rparr>) bs) \<and>
         journal_offset s' = journal_offset s + length bs * (hdr_size c + BSIZE) \<and>
         block_allocator s' = block_allocator s \<and>
         recs' = recs @ map (\<lambda>b. \<lparr>timestamp = ts, blocknum = fst b, block_type = jrnl_data\<rparr>) bs"
  using assms
proof (induction bs arbitrary: s recs)
  case Nil
  then show ?case by simp
next
  case (Cons b bs)
  let ?h = "\<lparr>timestamp = ts, blocknum = fst b, block_type = jrnl_data\<rparr>"
  from Cons.prems obtain s1 recs1 where
    w: "write_journal_hdrblock c ?h (snd b) (s, recs) = Inr (s1, recs1)"
    and r: "write_journal_transaction_blocks c bs ts (s1, recs1) = Inr (s', recs')"
    by (auto split: sum.splits)
  from write_journal_hdrblock_Inr [OF w]
  have s1: "events s1 = events s @ [Writei_journal (journal_offset s) ?h]"
    "journal_offset s1 = journal_offset s + (hdr_size c + BSIZE)"
    "block_allocator s1 = block_allocator s" "recs1 = recs @ [?h]"
    by simp_all
  from Cons.IH [OF r] s1 show ?case by simp
qed

lemma free_blocks_Inr:
  "free_blocks fs s = Inr s' \<Longrightarrow>
     events s' = events s @ map Free_block fs \<and> journal_offset s' = journal_offset s"
proof (induction fs arbitrary: s)
  case Nil
  then show ?case by simp
next
  case (Cons f fs)
  from Cons.prems obtain a where
    "free_blocks fs (s\<lparr>block_allocator := a, events := events s @ [Free_block f]\<rparr>) = Inr s'"
    by (auto split: sum.splits)
  from Cons.IH [OF this] show ?case by simp
qed

lemma add_fsync_to_journal_events:
  assumes "add_fsync_to_journal c tr s = Inr s'"
  shows "events s' = events s @
           journal_events (journal_offset s) (hdr_size c + BSIZE)
             (\<lparr>timestamp = tr_timestamp tr, blocknum = 0, block_type = jrnl_start\<rparr> #
              map (\<lambda>b. \<lparr>timestamp = tr_timestamp tr, blocknum = fst b, block_type = jrnl_data\<rparr>)
                (blocks (prepare_for_commit c (pre_process_transaction c tr)))) @
           [Write_to_disk
             (\<lparr>timestamp = tr_timestamp tr, blocknum = 0, block_type = jrnl_start\<rparr> #
              map (\<lambda>b. \<lparr>timestamp = tr_timestamp tr, blocknum = fst b, block_type = jrnl_data\<rparr>)
                (blocks (prepare_for_commit c (pre_process_transaction c tr)))),
            Writei_journal
              (journal_offset s +
                 Suc (length (blocks (prepare_for_commit c (pre_process_transaction c tr)))) *
                 (hdr_size c + BSIZE))
              \<lparr>timestamp = tr_timestamp tr, blocknum = 0, block_type = jrnl_commit\<rparr>,
            Write_to_disk [\<lparr>timestamp = tr_timestamp tr, blocknum = 0, block_type = jrnl_commit\<rparr>]] @
           map Free_block (free_block_list (prepare_for_commit c (pre_process_transaction c tr))) @
           map (Writeback_async \<circ> fst) (blocks (prepare_for_commit c (pre_process_transaction c tr))) @
           map (Async_iowait \<circ> fst) (blocks (prepare_for_commit c (pre_process_transaction c tr))) @
           [Ideflush,
            Zero_fill (journal_offset s +
                 Suc (Suc (length (blocks (prepare_for_commit c (pre_process_transaction c tr))))) *
                 (hdr_size c + BSIZE))] \<and>
         journal_offset s' = 0"
proof -
  let ?ts = "tr_timestamp tr"
  let ?tr2 = "prepare_for_commit c (pre_process_transaction c tr)"
  let ?start = "\<lparr>timestamp = ?ts, blocknum = 0, block_type = jrnl_start\<rparr>"
  let ?commit = "\<lparr>timestamp = ?ts, blocknum = 0, block_type = jrnl_commit\<rparr>"
  let ?sz = "hdr_size c + BSIZE"
  have ne: "jrnl_commit \<noteq> jrnl_start" by (simp add: jrnl_commit_def jrnl_start_def)
  from assms obtain s1 recs1 s2 recs2 s4 recs4 s6 where
    w1: "write_journal_hdrblock c ?start (replicate BSIZE 0) (s, []) = Inr (s1, recs1)"
    and w2: "write_journal_transaction_blocks c (blocks ?tr2) ?ts (s1, recs1) = Inr (s2, recs2)"
    and w4: "write_journal_hdrblock c ?commit (replicate BSIZE 0)
               (s2\<lparr>events := events s2 @ [Write_to_disk recs2]\<rparr>, []) = Inr (s4, recs4)"
    and p: "post_process_transaction ?tr2 (s4\<lparr>events := events s4 @ [Write_to_disk recs4]\<rparr>) = Inr s6"
    and s': "s' = clear_journal s6"
    by (auto simp: add_fsync_to_journal_def write_journal_header_def ne Let_def
             split: sum.splits prod.splits)
  note e1 = write_journal_hdrblock_Inr [OF w1]
  note e2 = write_journal_transaction_blocks_Inr [OF w2]
  note e4 = write_journal_hdrblock_Inr [OF w4]
  from p obtain s5 where
    f: "free_blocks (free_block_list ?tr2) (s4\<lparr>events := events s4 @ [Write_to_disk recs4]\<rparr>) = Inr s5"
    and s6: "s6 = s5\<lparr>events := events s5 @ map (Writeback_async \<circ> fst) (blocks ?tr2)
                                      @ map (Async_iowait \<circ> fst) (blocks ?tr2) @ [Ideflush]\<rparr>"
    by (auto simp: post_process_transaction_def split: sum.splits)
  note e5 = free_blocks_Inr [OF f]
  have off2: "journal_offset s2 = journal_offset s + Suc (length (blocks ?tr2)) * ?sz"
    using e1 e2 by simp
  have off6: "journal_offset s6 = journal_offset s + Suc (Suc (length (blocks ?tr2))) * ?sz"
    using e4 e5 off2 s6 by simp
  have ev2: "events s2 = events s @ journal_events (journal_offset s) ?sz
               (?start # map (\<lambda>b. \<lparr>timestamp = ?ts, blocknum = fst b, block_type = jrnl_data\<rparr>)
                           (blocks ?tr2))"
    using e1 e2 by (simp add: add.assoc)
  have r2: "recs2 = ?start # map (\<lambda>b. \<lparr>timestamp = ?ts, blocknum = fst b, block_type = jrnl_data\<rparr>)
                           (blocks ?tr2)"
    using e1 e2 by simp
  have ev4: "events s4 = events s2 @ [Write_to_disk recs2, Writei_journal (journal_offset s2) ?commit]"
    and r4: "recs4 = [?commit]"
    using e4 by simp_all
  have ev6: "events s6 = events s4 @ [Write_to_disk recs4] @ map Free_block (free_block_list ?tr2)
               @ map (Writeback_async \<circ> fst) (blocks ?tr2)
               @ map (Async_iowait \<circ> fst) (blocks ?tr2) @ [Ideflush]"
    using e5 s6 by simp
  show ?thesis
    unfolding s' clear_journal_def
    by (simp add: ev6 ev4 ev2 r2 r4 off2 off6)
qed


lemma never_after_append:
  "never_after P Q (xs @ ys) \<longleftrightarrow>
     never_after P Q xs \<and> never_after P Q ys \<and>
     ((\<exists>x \<in> set xs. Q x) \<longrightarrow> (\<forall>y \<in> set ys. \<not> P y))"
  by (induction xs) auto

lemma never_after_no_P: "\<forall>x \<in> set xs. \<not> P x \<Longrightarrow> never_after P Q xs"
  by (induction xs) auto

lemma never_after_no_Q: "\<forall>x \<in> set xs. \<not> Q x \<Longrightarrow> never_after P Q xs"
  by (induction xs) auto

lemma journal_events_set:
  "e \<in> set (journal_events off sz hs) \<Longrightarrow> \<exists>off' h. e = Writei_journal off' h \<and> h \<in> set hs"
proof (induction hs arbitrary: off)
  case Nil
  then show ?case by simp
next
  case (Cons a hs)
  from Cons.prems have "e = Writei_journal off a \<or> e \<in> set (journal_events (off + sz) sz hs)"
    by simp
  then show ?case
  proof
    assume "e = Writei_journal off a"
    then show ?thesis by simp
  next
    assume "e \<in> set (journal_events (off + sz) sz hs)"
    from Cons.IH [OF this] show ?thesis by auto
  qed
qed

lemma filter_none: "\<forall>x \<in> set xs. \<not> P x \<Longrightarrow> filter P xs = []"
  by (induction xs) auto

lemma filter_all: "\<forall>x \<in> set xs. P x \<Longrightarrow> filter P xs = xs"
  by (induction xs) auto

lemma add_fsync_to_journal_frees:
  assumes "add_fsync_to_journal c tr s = Inr s'"
  shows "\<exists>new. events s' = events s @ new \<and> frees_after_commit c tr new"
proof -
  let ?ts = "tr_timestamp tr"
  let ?tr2 = "prepare_for_commit c (pre_process_transaction c tr)"
  let ?start = "\<lparr>timestamp = ?ts, blocknum = 0, block_type = jrnl_start\<rparr>"
  let ?commit = "\<lparr>timestamp = ?ts, blocknum = 0, block_type = jrnl_commit\<rparr>"
  let ?datas = "map (\<lambda>b. \<lparr>timestamp = ?ts, blocknum = fst b, block_type = jrnl_data\<rparr>) (blocks ?tr2)"
  let ?sz = "hdr_size c + BSIZE"
  define J where "J = journal_events (journal_offset s) ?sz (?start # ?datas)"
  define C where "C = [Write_to_disk (?start # ?datas),
     Writei_journal (journal_offset s + Suc (length (blocks ?tr2)) * ?sz) ?commit,
     Write_to_disk [?commit]]"
  define F where "F = map Free_block (free_block_list ?tr2)"
  define W where "W = map (Writeback_async \<circ> fst) (blocks ?tr2) @ map (Async_iowait \<circ> fst) (blocks ?tr2)"
  define Z where "Z = [Ideflush, Zero_fill (journal_offset s + Suc (Suc (length (blocks ?tr2))) * ?sz)]"
  from add_fsync_to_journal_events [OF assms]
  have ev: "events s' = events s @ (J @ C @ F @ W @ Z)"
    by (simp add: J_def C_def F_def W_def Z_def)
  have J: "\<forall>e \<in> set J. \<not> is_free_block e \<and> \<not> is_writeback e \<and> \<not> is_ideflush e \<and>
              \<not> waits_for_record jrnl_commit e"
    unfolding J_def by (auto dest!: journal_events_set)
  have C: "\<forall>e \<in> set C. \<not> is_free_block e \<and> \<not> is_writeback e \<and> \<not> is_ideflush e"
    "\<exists>e \<in> set C. waits_for_record jrnl_commit e"
    unfolding C_def by simp_all
  have F: "\<forall>e \<in> set F. is_free_block e \<and> \<not> is_writeback e \<and> \<not> is_ideflush e \<and>
              \<not> waits_for_record jrnl_commit e"
    unfolding F_def by auto
  have W: "\<forall>e \<in> set W. \<not> is_free_block e \<and> is_writeback e \<and> \<not> is_ideflush e \<and>
              \<not> waits_for_record jrnl_commit e"
    unfolding W_def by auto
  have Z: "\<forall>e \<in> set Z. \<not> is_free_block e \<and> \<not> is_writeback e \<and>
              \<not> waits_for_record jrnl_commit e" "filter is_ideflush Z = [Ideflush]"
    unfolding Z_def by simp_all
  have f1: "filter is_free_block (J @ C @ F @ W @ Z) = F"
    using J C F W Z by (simp add: filter_none filter_all)
  have f2: "filter is_writeback (J @ C @ F @ W @ Z) = W"
    using J C F W Z by (simp add: filter_none filter_all)
  have f3: "filter is_ideflush (J @ C @ F @ W @ Z) = [Ideflush]"
    using J C F W Z by (simp add: filter_none)
  have f4: "\<exists>e \<in> set (J @ C @ F @ W @ Z). waits_for_record jrnl_commit e"
    using C(2) by auto
  have n1: "never_after (waits_for_record jrnl_commit) is_free_block (J @ C @ F @ W @ Z)"
    using J C F W Z by (auto simp: never_after_append never_after_no_P never_after_no_Q)
  have n2: "never_after is_free_block is_writeback (J @ C @ F @ W @ Z)"
    using J C F W Z by (auto simp: never_after_append never_after_no_P never_after_no_Q)
  have n3: "never_after is_free_block is_ideflush (J @ C @ F @ W @ Z)"
    using J C F W Z by (auto simp: never_after_append never_after_no_P never_after_no_Q)
  have n4: "never_after is_writeback is_ideflush (J @ C @ F @ W @ Z)"
    using J C F W Z(1) by (auto simp: never_after_append never_after_no_P never_after_no_Q)
  have "frees_after_commit c tr (J @ C @ F @ W @ Z)"
    unfolding frees_after_commit_def Let_def
    using f1 f2 f3 f4 n1 n2 n3 n4 by (simp only: F_def W_def simp_thms)
  with ev show ?thesis by blast
qed


lemma add_fsync_to_journal_order:
  assumes "add_fsync_to_journal c tr s = Inr s'"
  shows "\<exists>new. events s' = events s @ new \<and> journal_write_order c tr new"
proof -
  let ?ts = "tr_timestamp tr"
  let ?tr2 = "prepare_for_commit c (pre_process_transaction c tr)"
  let ?start = "\<lparr>timestamp = ?ts, blocknum = 0, block_type = jrnl_start\<rparr>"
  let ?commit = "\<lparr>timestamp = ?ts, blocknum = 0, block_type = jrnl_commit\<rparr>"
  let ?datas = "map (\<lambda>b. \<lparr>timestamp = ?ts, blocknum = fst b, block_type = jrnl_data\<rparr>) (blocks ?tr2)"
  let ?sz = "hdr_size c + BSIZE"
  let ?offc = "journal_offset s + Suc (length (blocks ?tr2)) * ?sz"
  define S where "S = [Writei_journal (journal_offset s) ?start]"
  define D where "D = journal_events (journal_offset s + ?sz) ?sz ?datas"
  define C1 where "C1 = [Write_to_disk (?start # ?datas)]"
  define C2 where "C2 = [Writei_journal ?offc ?commit]"
  define C3 where "C3 = [Write_to_disk [?commit]]"
  define R where "R = map Free_block (free_block_list ?tr2) @
     map (Writeback_async \<circ> fst) (blocks ?tr2) @ map (Async_iowait \<circ> fst) (blocks ?tr2) @
     [Ideflush, Zero_fill (journal_offset s + Suc (Suc (length (blocks ?tr2))) * ?sz)]"
  from add_fsync_to_journal_events [OF assms]
  have ev: "events s' = events s @ (S @ D @ C1 @ C2 @ C3 @ R)"
    by (simp add: S_def D_def C1_def C2_def C3_def R_def)
  have ne: "jrnl_start \<noteq> jrnl_data" "jrnl_start \<noteq> jrnl_commit" "jrnl_data \<noteq> jrnl_commit"
    "jrnl_data \<noteq> jrnl_start" "jrnl_commit \<noteq> jrnl_start" "jrnl_commit \<noteq> jrnl_data"
    by (simp_all add: jrnl_start_def jrnl_data_def jrnl_commit_def)
  have S: "\<forall>e \<in> set S. writes_record jrnl_start e \<and> \<not> writes_record jrnl_data e \<and>
             \<not> writes_record jrnl_commit e \<and> \<not> is_write_to_disk e \<and>
             \<not> waits_for_record jrnl_start e \<and> \<not> waits_for_record jrnl_data e \<and>
             \<not> waits_for_record jrnl_commit e \<and> \<not> is_writeback e"
    unfolding S_def using ne by simp
  have D: "\<forall>e \<in> set D. \<not> writes_record jrnl_start e \<and>
             \<not> writes_record jrnl_commit e \<and> \<not> is_write_to_disk e \<and>
             \<not> waits_for_record jrnl_start e \<and> \<not> waits_for_record jrnl_data e \<and>
             \<not> waits_for_record jrnl_commit e \<and> \<not> is_writeback e"
    unfolding D_def using ne by (auto dest!: journal_events_set)
  have C1: "\<forall>e \<in> set C1. \<not> writes_record jrnl_start e \<and> \<not> writes_record jrnl_data e \<and>
             \<not> writes_record jrnl_commit e \<and> is_write_to_disk e \<and>
             \<not> waits_for_record jrnl_commit e \<and> \<not> is_writeback e"
    unfolding C1_def using ne by auto
  have C2: "\<forall>e \<in> set C2. \<not> writes_record jrnl_start e \<and> \<not> writes_record jrnl_data e \<and>
             writes_record jrnl_commit e \<and> \<not> is_write_to_disk e \<and>
             \<not> waits_for_record jrnl_start e \<and> \<not> waits_for_record jrnl_data e \<and>
             \<not> waits_for_record jrnl_commit e \<and> \<not> is_writeback e"
    unfolding C2_def using ne by simp
  have C3: "\<forall>e \<in> set C3. \<not> writes_record jrnl_start e \<and> \<not> writes_record jrnl_data e \<and>
             \<not> writes_record jrnl_commit e \<and> is_write_to_disk e \<and>
             \<not> waits_for_record jrnl_start e \<and> \<not> waits_for_record jrnl_data e \<and>
             \<not> is_writeback e"
    unfolding C3_def using ne by simp
  have R: "\<forall>e \<in> set R. \<not> writes_record jrnl_start e \<and> \<not> writes_record jrnl_data e \<and>
             \<not> writes_record jrnl_commit e \<and> \<not> is_write_to_disk e \<and>
             \<not> waits_for_record jrnl_start e \<and> \<not> waits_for_record jrnl_data e \<and>
             \<not> waits_for_record jrnl_commit e"
    unfolding R_def by auto
  let ?new = "S @ D @ C1 @ C2 @ C3 @ R"
  have f1: "filter is_write_to_disk ?new = C1 @ C3"
    using S D C1 C2 C3 R by (simp add: filter_none filter_all)
  have f2: "filter (writes_record jrnl_commit) ?new = C2"
    using S D C1 C2 C3 R by (simp add: filter_none filter_all)
  have n1: "never_after (writes_record jrnl_start) (writes_record jrnl_data) ?new"
    using S D C1 C2 C3 R by (auto simp: never_after_append never_after_no_P never_after_no_Q)
  have n2: "never_after (writes_record jrnl_data) is_write_to_disk ?new"
    using S D C1 C2 C3 R by (auto simp: never_after_append never_after_no_P never_after_no_Q)
  have n3: "never_after (waits_for_record jrnl_start) (writes_record jrnl_commit) ?new"
    using S D C1 C2 C3 R by (auto simp: never_after_append never_after_no_P never_after_no_Q)
  have n4: "never_after (waits_for_record jrnl_data) (writes_record jrnl_commit) ?new"
    using S D C1 C2 C3 R by (auto simp: never_after_append never_after_no_P never_after_no_Q)
  have n5: "never_after (writes_record jrnl_commit) (waits_for_record jrnl_commit) ?new"
    using S D C1 C2 C3 R by (auto simp: never_after_append never_after_no_P never_after_no_Q)
  have n6: "never_after (waits_for_record jrnl_commit) is_writeback ?new"
    using S D C1 C2 C3 R by (auto simp: never_after_append never_after_no_P never_after_no_Q)
  have "journal_write_order c tr ?new"
    unfolding journal_write_order_def Let_def f1 f2
    using n1 n2 n3 n4 n5 n6 by (simp add: C1_def C2_def C3_def)
  with ev show ?thesis by blast
qed

lemma flush_journal_locked_all:
  assumes step: "\<And>tr s s'. add_fsync_to_journal c tr s = Inr s' \<Longrightarrow>
                   \<exists>new. events s' = events s @ new \<and> P tr new"
    and "flush_journal_locked c transaction_log s = Inr s'"
  shows "\<exists>news. events s' = events s @ concat news \<and> list_all2 P transaction_log news"
  using assms(2)
proof (induction transaction_log arbitrary: s)
  case Nil
  then have "events s' = events s @ concat []" by simp
  then show ?case by (metis list_all2_Nil)
next
  case (Cons tr log)
  from Cons.prems obtain s1 where a: "add_fsync_to_journal c tr s = Inr s1"
    and f: "flush_journal_locked c log s1 = Inr s'"
    by (auto split: sum.splits)
  from step [OF a] obtain new where n: "events s1 = events s @ new" "P tr new" by blast
  from Cons.IH [OF f] obtain news where
    ns: "events s' = events s1 @ concat news" "list_all2 P log news" by blast
  from n ns have "events s' = events s @ concat (new # news)" "list_all2 P (tr # log) (new # news)"
    by simp_all
  then show ?case by blast
qed

lemma example_commit:
  "add_fsync_to_journal plain_collaborators example_transaction example_commit_state =
     Inr \<lparr>block_allocator = \<lparr>free_bit_vector = [False, False, False, True],
                               free_bit_freelist = [3], sb_size = 4\<rparr>,
          journal_offset = 0, events = example_events\<rparr>"
  by (simp add: add_fsync_to_journal_def plain_collaborators_def example_transaction_def
        example_commit_state_def example_events_def pre_process_transaction_def
        write_journal_header_def write_journal_hdrblock_def post_process_transaction_def
        clear_journal_def free_block_def jrnl_start_def jrnl_commit_def jrnl_data_def BSIZE_def
        Let_def)


lemma example_flush:
  "flush_journal_locked plain_collaborators [example_transaction] example_commit_state =
     Inr \<lparr>block_allocator = \<lparr>free_bit_vector = [False, False, False, True],
                               free_bit_freelist = [3], sb_size = 4\<rparr>,
          journal_offset = 0, events = example_events\<rparr>"
  by (simp add: example_commit)

text \<open>
  C2, as the code has it. In the commit of every transaction, by \<open>add_fsync_to_journal\<close>
  or by the loop of \<open>flush_journal_locked\<close>, the blocks of the transaction's
  \<open>free_block_list\<close> are marked free after the Commit record has been written to the
  journal and waited for, and before any block of the transaction is written back to its
  home location and before \<open>ideflush\<close>: step 8 comes after step 5 and before steps 6
  and 7.
\<close>

theorem free_blocks_follow_commit_record:
  "(add_fsync_to_journal c tr s = Inr s' \<longrightarrow>
      (\<exists>new. events s' = events s @ new \<and> frees_after_commit c tr new)) \<and>
   (flush_journal_locked c transaction_log s = Inr s'' \<longrightarrow>
      (\<exists>news. events s'' = events s @ concat news \<and>
              list_all2 (frees_after_commit c) transaction_log news))"
proof (intro conjI impI)
  assume "add_fsync_to_journal c tr s = Inr s'"
  then show "\<exists>new. events s' = events s @ new \<and> frees_after_commit c tr new"
    by (rule add_fsync_to_journal_frees)
next
  assume "flush_journal_locked c transaction_log s = Inr s''"
  with add_fsync_to_journal_frees
  show "\<exists>news. events s'' = events s @ concat news \<and>
               list_all2 (frees_after_commit c) transaction_log news"
    by (rule flush_journal_locked_all)
qed

theorem free_blocks_follow_commit_record_witness:
  "add_fsync_to_journal plain_collaborators example_transaction example_commit_state =
     Inr \<lparr>block_allocator = \<lparr>free_bit_vector = [False, False, False, True],
                               free_bit_freelist = [3], sb_size = 4\<rparr>,
          journal_offset = 0, events = example_events\<rparr> \<and>
   flush_journal_locked plain_collaborators [example_transaction] example_commit_state =
     Inr \<lparr>block_allocator = \<lparr>free_bit_vector = [False, False, False, True],
                               free_bit_freelist = [3], sb_size = 4\<rparr>,
          journal_offset = 0, events = example_events\<rparr> \<and>
   frees_after_commit plain_collaborators example_transaction example_events \<and>
   (\<exists>news. example_events = concat news \<and>
      list_all2 (frees_after_commit plain_collaborators) [example_transaction] news)"
proof -
  note t = free_blocks_follow_commit_record
    [of plain_collaborators example_transaction example_commit_state _
        "[example_transaction]" _]
  from t [THEN conjunct1, rule_format, OF example_commit]
  have 1: "frees_after_commit plain_collaborators example_transaction example_events"
    by (simp add: example_commit_state_def)
  from t [THEN conjunct2, rule_format, OF example_flush]
  have 2: "\<exists>news. example_events = concat news \<and>
      list_all2 (frees_after_commit plain_collaborators) [example_transaction] news"
    by (simp add: example_commit_state_def)
  from example_commit example_flush 1 2 show ?thesis by (intro conjI)
qed

theorem free_blocks_counterexample:
  "add_fsync_to_journal plain_collaborators example_transaction example_commit_state =
     Inr \<lparr>block_allocator = \<lparr>free_bit_vector = [False, False, False, True],
                               free_bit_freelist = [3], sb_size = 4\<rparr>,
          journal_offset = 0, events = example_events\<rparr> \<and>
   \<not> never_after is_writeback is_free_block example_events \<and>
   \<not> never_after is_ideflush is_free_block example_events"
proof -
  have "\<not> never_after is_writeback is_free_block example_events"
    "\<not> never_after is_ideflush is_free_block example_events"
    by (simp_all add: example_events_def)
  with example_commit show ?thesis by (intro conjI)
qed

text \<open>
  C3, as the code has it. For every transaction committed online, by
  \<open>add_fsync_to_journal\<close> or by the loop of \<open>flush_journal_locked\<close>, the Start record
  and then all Data records are written to the journal under one transaction and are
  waited for together by one \<open>write_to_disk\<close>; only then is the Commit record written,
  and it is waited for by a second \<open>write_to_disk\<close> before home-location writeback
  begins. No wait separates the Start record from the Data records, or one Data record
  from the next.
\<close>

theorem journal_records_order:
  "(add_fsync_to_journal c tr s = Inr s' \<longrightarrow>
      (\<exists>new. events s' = events s @ new \<and> journal_write_order c tr new)) \<and>
   (flush_journal_locked c transaction_log s = Inr s'' \<longrightarrow>
      (\<exists>news. events s'' = events s @ concat news \<and>
              list_all2 (journal_write_order c) transaction_log news))"
proof (intro conjI impI)
  assume "add_fsync_to_journal c tr s = Inr s'"
  then show "\<exists>new. events s' = events s @ new \<and> journal_write_order c tr new"
    by (rule add_fsync_to_journal_order)
next
  assume "flush_journal_locked c transaction_log s = Inr s''"
  with add_fsync_to_journal_order
  show "\<exists>news. events s'' = events s @ concat news \<and>
               list_all2 (journal_write_order c) transaction_log news"
    by (rule flush_journal_locked_all)
qed

theorem journal_records_order_witness:
  "add_fsync_to_journal plain_collaborators example_transaction example_commit_state =
     Inr \<lparr>block_allocator = \<lparr>free_bit_vector = [False, False, False, True],
                               free_bit_freelist = [3], sb_size = 4\<rparr>,
          journal_offset = 0, events = example_events\<rparr> \<and>
   flush_journal_locked plain_collaborators [example_transaction] example_commit_state =
     Inr \<lparr>block_allocator = \<lparr>free_bit_vector = [False, False, False, True],
                               free_bit_freelist = [3], sb_size = 4\<rparr>,
          journal_offset = 0, events = example_events\<rparr> \<and>
   journal_write_order plain_collaborators example_transaction example_events \<and>
   (\<exists>news. example_events = concat news \<and>
      list_all2 (journal_write_order plain_collaborators) [example_transaction] news)"
proof -
  note t = journal_records_order
    [of plain_collaborators example_transaction example_commit_state _
        "[example_transaction]" _]
  from t [THEN conjunct1, rule_format, OF example_commit]
  have 1: "journal_write_order plain_collaborators example_transaction example_events"
    by (simp add: example_commit_state_def)
  from t [THEN conjunct2, rule_format, OF example_flush]
  have 2: "\<exists>news. example_events = concat news \<and>
      list_all2 (journal_write_order plain_collaborators) [example_transaction] news"
    by (simp add: example_commit_state_def)
  from example_commit example_flush 1 2 show ?thesis by (intro conjI)
qed

theorem journal_records_counterexample:
  "add_fsync_to_journal plain_collaborators example_transaction example_commit_state =
     Inr \<lparr>block_allocator = \<lparr>free_bit_vector = [False, False, False, True],
                               free_bit_freelist = [3], sb_size = 4\<rparr>,
          journal_offset = 0, events = example_events\<rparr> \<and>
   \<not> never_after (waits_for_record jrnl_start) (writes_record jrnl_data) example_events"
proof -
  have "\<not> never_after (waits_for_record jrnl_start) (writes_record jrnl_data) example_events"
    by (simp add: example_events_def jrnl_start_def jrnl_data_def)
  with example_commit show ?thesis by (intro conjI)
qed

subsection \<open>The interface between mnodes and on-disk inodes\<close>


lemma example_get_inode: "get_inode simple_layer example_interface 1 = Inr 1"
  by (simp add: get_inode_def example_interface_def simple_layer_def example_world_def)

lemma example_dirlookup: "dirlookup simple_layer example_world 1 ''a'' = Some 5"
  by (simp add: simple_layer_def example_world_def)

lemma example_dirunlink:
  "dirunlink simple_layer example_world 1 ''a'' 5 False = unlinked_world"
  by (simp add: simple_layer_def example_world_def unlinked_world_def sw_update_def fun_upd_twist)

lemma example_unlink:
  "unlink_old_inode simple_layer 1 ''a'' [] example_interface = Inr ([], unlinked_interface)"
proof -
  have t: "inode_type simple_layer example_world 5 = 2" "T_DIR simple_layer = 1"
    "inode_nlink simple_layer unlinked_world 5 = 0"
    by (simp_all add: simple_layer_def example_world_def unlinked_world_def)
  have w: "world example_interface = example_world" by (simp add: example_interface_def)
  have m: "(inum_to_mnode example_interface)(5 := None) = [1 \<mapsto> Some 1]"
    by (auto simp: example_interface_def)
  show ?thesis
    by (simp add: unlink_old_inode_def example_get_inode w example_dirlookup t
          example_dirunlink m)
       (simp add: example_interface_def unlinked_interface_def)
qed

lemma half_symmetric_world [simp]: "half_symmetric (st\<lparr>world := w\<rparr>) = half_symmetric st"
  by (simp add: half_symmetric_def)



lemma create_file_if_new_cases:
  assumes "create_file_if_new L m p ty n tr l st = Inr (r, tr', st')"
  shows "(mnode_to_inode st m \<noteq> None \<and> r = 0 \<and> tr' = tr \<and> st' = st) \<or>
         (mnode_to_inode st m = None \<and>
          (\<exists>v w. (v = None \<or> v = Some m) \<and>
             st' = st\<lparr>mnode_to_inode := (mnode_to_inode st)(m \<mapsto> r),
                       inum_to_mnode := (inum_to_mnode st)(r \<mapsto> v), world := w\<rparr>))"
  using assms
  by (auto simp: create_file_if_new_def inode_lookup_def Let_def
           split: option.splits prod.splits if_splits)














lemmas example_defs = simple_layer_def example_world_def example_interface_def sw_update_def
  inode_lookup_def get_inode_def unlinked_world_def unlinked_interface_def Let_def











text \<open>
  C7. \<open>create_file_if_new\<close> for an mnum that has an entry in \<open>mnode_to_inode\<close>
  returns 0 and leaves the transaction and the state as they are. So a second call with
  the same mnum, after a first call that returned, returns 0 and changes nothing: two
  calls leave the state that one call leaves.
\<close>

theorem create_file_if_new_idempotent:
  "(mnode_to_inode st mfile_inum = Some inum \<longrightarrow>
      create_file_if_new L mfile_inum parent type name tr link_in_parent st = Inr (0, tr, st)) \<and>
   (create_file_if_new L mfile_inum parent type name tr link_in_parent st = Inr (r, tr1, st1)
      \<longrightarrow> create_file_if_new L mfile_inum parent type name tr1 link_in_parent st1
            = Inr (0, tr1, st1))"
proof (intro conjI impI)
  assume "mnode_to_inode st mfile_inum = Some inum"
  then show "create_file_if_new L mfile_inum parent type name tr link_in_parent st
               = Inr (0, tr, st)"
    by (simp add: create_file_if_new_def inode_lookup_def)
next
  assume "create_file_if_new L mfile_inum parent type name tr link_in_parent st
            = Inr (r, tr1, st1)"
  from create_file_if_new_cases [OF this]
  have "mnode_to_inode st1 mfile_inum \<noteq> None" by auto
  then show "create_file_if_new L mfile_inum parent type name tr1 link_in_parent st1
               = Inr (0, tr1, st1)"
    by (auto simp: create_file_if_new_def inode_lookup_def)
qed

theorem create_file_if_new_idempotent_witness:
  "mnode_to_inode example_interface 10 = Some 5 \<and>
   create_file_if_new simple_layer 10 1 2 ''a'' [] True example_interface
     = Inr (0, [], example_interface) \<and>
   (\<exists>tr1 st1. create_file_if_new simple_layer 11 1 2 ''b'' [] True example_interface
                   = Inr (6, tr1, st1) \<and>
                 create_file_if_new simple_layer 11 1 2 ''b'' tr1 True st1 = Inr (0, tr1, st1))"
proof -
  have m: "mnode_to_inode example_interface 10 = Some 5"
    by (simp add: example_interface_def)
  note t = create_file_if_new_idempotent
  from t [THEN conjunct1, rule_format, OF m]
  have 1: "create_file_if_new simple_layer 10 1 2 ''a'' [] True example_interface
             = Inr (0, [], example_interface)" .
  have "\<exists>tr1 st1. create_file_if_new simple_layer 11 1 2 ''b'' [] True example_interface
                   = Inr (6, tr1, st1)"
    by (simp add: create_file_if_new_def example_defs)
  then obtain tr1 st1 where
    e: "create_file_if_new simple_layer 11 1 2 ''b'' [] True example_interface
          = Inr (6, tr1, st1)" by blast
  from t [THEN conjunct2, rule_format, OF e]
  have "create_file_if_new simple_layer 11 1 2 ''b'' tr1 True st1 = Inr (0, tr1, st1)" .
  with m 1 e show ?thesis by blast
qed

text \<open>
  C10. When the directory's inode is found and \<open>dirlookup\<close> finds no entry of the
  name, \<open>unlink_old_inode\<close> returns and leaves the transaction, both tables and the
  inode layer as they are.
\<close>

theorem unlink_old_inode_no_entry:
  assumes "get_inode L st mdir_inum = Inr i" and "dirlookup L (world st) i name = None"
  shows "unlink_old_inode L mdir_inum name tr st = Inr (tr, st)"
  using assms by (simp add: unlink_old_inode_def)

theorem unlink_old_inode_no_entry_witness:
  "get_inode simple_layer example_interface 1 = Inr 1 \<and>
   dirlookup simple_layer (world example_interface) 1 ''b'' = None \<and>
   unlink_old_inode simple_layer 1 ''b'' [7] example_interface = Inr ([7], example_interface)"
proof -
  have d: "dirlookup simple_layer (world example_interface) 1 ''b'' = None"
    by (simp add: example_defs)
  from unlink_old_inode_no_entry [OF example_get_inode d, of "[7]"] example_get_inode d
  show ?thesis by (intro conjI)
qed

text \<open>
  C8. When the directory's inode is found and \<open>dirlookup\<close> finds the target of the
  name, \<open>unlink_old_inode\<close> returns; the inode layer is left as \<open>dirunlink\<close> of
  the name leaves it and the transaction as it was, so nothing is truncated and no type
  is cleared; \<open>mnode_to_inode\<close> is unchanged; \<open>inum_to_mnode\<close> loses the target's
  inum exactly when the target's link count is zero after the unlink. It is
  \<open>delete_old_inode\<close> that truncates the inode to size 0, clears its type and removes
  the mnum from \<open>mnode_to_inode\<close>.
\<close>

theorem unlink_old_inode_frame:
  "(get_inode L st mdir_inum = Inr i \<and> dirlookup L (world st) i name = Some target \<longrightarrow>
      (\<exists>st'. unlink_old_inode L mdir_inum name tr st = Inr (tr, st') \<and>
             world st' = dirunlink L (world st) i name target
                           (inode_type L (world st) target = T_DIR L) \<and>
             mnode_to_inode st' = mnode_to_inode st \<and>
             inum_to_mnode st' =
               (if inode_nlink L (world st') target = 0
                then (inum_to_mnode st)(target := None) else inum_to_mnode st))) \<and>
   (delete_old_inode L mfile_inum tr st = Inr (tr2, st2) \<longrightarrow>
      (\<exists>ip w1 tr1 w3.
          get_inode L st mfile_inum = Inr ip \<and>
          itrunc L (world st) ip 0 tr = (w1, tr1) \<and>
          iupdate L (set_inode_type L w1 ip 0) ip tr1 = (w3, tr2) \<and>
          world st2 = inode_dec L w3 ip \<and>
          mnode_to_inode st2 = (mnode_to_inode st)(mfile_inum := None) \<and>
          inum_to_mnode st2 = inum_to_mnode st))"
proof (intro conjI impI)
  assume "get_inode L st mdir_inum = Inr i \<and> dirlookup L (world st) i name = Some target"
  then show "\<exists>st'. unlink_old_inode L mdir_inum name tr st = Inr (tr, st') \<and>
             world st' = dirunlink L (world st) i name target
                           (inode_type L (world st) target = T_DIR L) \<and>
             mnode_to_inode st' = mnode_to_inode st \<and>
             inum_to_mnode st' =
               (if inode_nlink L (world st') target = 0
                then (inum_to_mnode st)(target := None) else inum_to_mnode st)"
    by (simp add: unlink_old_inode_def Let_def)
next
  assume a: "delete_old_inode L mfile_inum tr st = Inr (tr2, st2)"
  then obtain ip where g: "get_inode L st mfile_inum = Inr ip"
    by (auto simp: delete_old_inode_def split: sum.splits)
  obtain w1 tr1 where i: "itrunc L (world st) ip 0 tr = (w1, tr1)"
    by (cases "itrunc L (world st) ip 0 tr")
  from a g i obtain tr' st' where
    f: "free_inode L mfile_inum tr1 (st\<lparr>world := w1\<rparr>) = Inr (tr', st')"
    and s2: "tr2 = tr'" "st2 = st'\<lparr>mnode_to_inode := (mnode_to_inode st')(mfile_inum := None)\<rparr>"
    by (auto simp: delete_old_inode_def split: sum.splits)
  from g have m: "mnode_to_inode st mfile_inum = Some ip"
    by (auto simp: get_inode_def split: option.splits if_splits)
  obtain w3 tr3 where u: "iupdate L (set_inode_type L w1 ip 0) ip tr1 = (w3, tr3)"
    by (cases "iupdate L (set_inode_type L w1 ip 0) ip tr1")
  from f m u have "tr' = tr3" "st' = st\<lparr>world := inode_dec L w3 ip\<rparr>"
    by (auto simp: free_inode_def get_inode_def Let_def split: if_splits)
  with g i u s2 show "\<exists>ip w1 tr1 w3.
          get_inode L st mfile_inum = Inr ip \<and>
          itrunc L (world st) ip 0 tr = (w1, tr1) \<and>
          iupdate L (set_inode_type L w1 ip 0) ip tr1 = (w3, tr2) \<and>
          world st2 = inode_dec L w3 ip \<and>
          mnode_to_inode st2 = (mnode_to_inode st)(mfile_inum := None) \<and>
          inum_to_mnode st2 = inum_to_mnode st"
    by simp
qed

theorem unlink_old_inode_frame_witness:
  "get_inode simple_layer example_interface 1 = Inr 1 \<and>
   dirlookup simple_layer (world example_interface) 1 ''a'' = Some 5 \<and>
   unlink_old_inode simple_layer 1 ''a'' [] example_interface = Inr ([], unlinked_interface) \<and>
   dirlookup simple_layer (world unlinked_interface) 1 ''a'' = None \<and>
   sw_inodes (world example_interface) 5 =
     Some \<lparr>si_type = 2, si_nlink = 1, si_size = 100, si_entries = []\<rparr> \<and>
   sw_inodes (world unlinked_interface) 5 =
     Some \<lparr>si_type = 2, si_nlink = 0, si_size = 100, si_entries = []\<rparr> \<and>
   mnode_to_inode unlinked_interface = mnode_to_inode example_interface \<and>
   inum_to_mnode unlinked_interface = (inum_to_mnode example_interface)(5 := None) \<and>
   (\<exists>tr2 st2. delete_old_inode simple_layer 10 [] unlinked_interface = Inr (tr2, st2) \<and>
      sw_inodes (world st2) 5 =
        Some \<lparr>si_type = 0, si_nlink = 0, si_size = 0, si_entries = []\<rparr> \<and>
      mnode_to_inode st2 10 = None)"
proof -
  have d: "dirlookup simple_layer (world example_interface) 1 ''a'' = Some 5"
    by (simp add: example_defs)
  note t = unlink_old_inode_frame
  from t [THEN conjunct1, rule_format, OF conjI [OF example_get_inode d], of "[]"]
  obtain st' where u: "unlink_old_inode simple_layer 1 ''a'' [] example_interface = Inr ([], st')"
    and m: "mnode_to_inode st' = mnode_to_inode example_interface"
    and i: "inum_to_mnode st' =
               (if inode_nlink simple_layer (world st') 5 = 0
                then (inum_to_mnode example_interface)(5 := None)
                else inum_to_mnode example_interface)"
    by blast
  from u example_unlink have st': "st' = unlinked_interface" by simp
  have n: "inode_nlink simple_layer (world unlinked_interface) 5 = 0"
    by (simp add: example_defs)
  from m i n have 1: "mnode_to_inode unlinked_interface = mnode_to_inode example_interface"
    "inum_to_mnode unlinked_interface = (inum_to_mnode example_interface)(5 := None)"
    by (simp_all add: st')
  have 2: "dirlookup simple_layer (world unlinked_interface) 1 ''a'' = None"
    "sw_inodes (world example_interface) 5 =
       Some \<lparr>si_type = 2, si_nlink = 1, si_size = 100, si_entries = []\<rparr>"
    "sw_inodes (world unlinked_interface) 5 =
       Some \<lparr>si_type = 2, si_nlink = 0, si_size = 100, si_entries = []\<rparr>"
    by (simp_all add: example_defs)
  have "\<exists>tr2 st2. delete_old_inode simple_layer 10 [] unlinked_interface = Inr (tr2, st2) \<and>
      sw_inodes (world st2) 5 =
        Some \<lparr>si_type = 0, si_nlink = 0, si_size = 0, si_entries = []\<rparr>"
    by (simp add: delete_old_inode_def free_inode_def example_defs)
  then obtain tr2 st2 where
    e: "delete_old_inode simple_layer 10 [] unlinked_interface = Inr (tr2, st2)"
    and z: "sw_inodes (world st2) 5 =
        Some \<lparr>si_type = 0, si_nlink = 0, si_size = 0, si_entries = []\<rparr>"
    by blast
  from t [THEN conjunct2, rule_format, OF e]
  have "mnode_to_inode st2 = (mnode_to_inode unlinked_interface)(10 := None)" by blast
  then have "mnode_to_inode st2 10 = None" by simp
  with e z have 3: "\<exists>tr2 st2. delete_old_inode simple_layer 10 [] unlinked_interface
      = Inr (tr2, st2) \<and>
      sw_inodes (world st2) 5 =
        Some \<lparr>si_type = 0, si_nlink = 0, si_size = 0, si_entries = []\<rparr> \<and>
      mnode_to_inode st2 10 = None" by blast
  from example_get_inode d example_unlink 1 2 3 show ?thesis by (intro conjI)
qed


end
